theory Spec2Isabelle
  imports Main "HOL-Library.Word"
begin

section \<open>JavaScript strings\<close>

text \<open>
  A JavaScript string is a sequence of 16-bit code units. Literals of the source are
  written with \<open>js\<close>, which maps every ASCII character to its code unit.
\<close>

type_synonym jstring = "16 word list"

definition cu :: "char \<Rightarrow> 16 word" where
  "cu c = of_nat (of_char c)"

definition js :: "string \<Rightarrow> jstring" where
  "js s = map cu s"

datatype error =
    InvalidCharacterError
  | URIError
  | SyntaxError
  | TypeError
  | ChainError nat
  | NullResult nat

text \<open>\<open>String.prototype.startsWith\<close> and \<open>String.prototype.includes\<close>.\<close>

fun startsWith :: "'a list \<Rightarrow> 'a list \<Rightarrow> bool" where
  "startsWith s [] = True"
| "startsWith [] (p # ps) = False"
| "startsWith (x # xs) (p # ps) = (x = p \<and> startsWith xs ps)"

fun str_includes :: "'a list \<Rightarrow> 'a list \<Rightarrow> bool" where
  "str_includes [] pat = (pat = [])"
| "str_includes (x # xs) pat = (startsWith (x # xs) pat \<or> str_includes xs pat)"

text \<open>
  \<open>String.prototype.split\<close> with a one-character separator: the pieces between the
  separators, so one piece more than there are separators.
\<close>

function str_split :: "'a \<Rightarrow> 'a list \<Rightarrow> 'a list list" where
  "str_split sep s =
     (case dropWhile (\<lambda>c. c \<noteq> sep) s of
        [] \<Rightarrow> [takeWhile (\<lambda>c. c \<noteq> sep) s]
      | _ # rest \<Rightarrow> takeWhile (\<lambda>c. c \<noteq> sep) s # str_split sep rest)"
  by pat_completeness auto
termination
proof (relation "measure (\<lambda>(sep, s). length s)")
  show "wf (measure (\<lambda>(sep, s). length s))" by simp
next
  fix sep :: 'a and s :: "'a list" and x rest
  assume "dropWhile (\<lambda>c. c \<noteq> sep) s = x # rest"
  then have "length (x # rest) \<le> length s"
    by (metis length_dropWhile_le)
  then show "((sep, rest), (sep, s)) \<in> measure (\<lambda>(sep, s). length s)"
    by simp
qed

declare str_split.simps [simp del]

text \<open>\<open>Array.prototype.join\<close>.\<close>

fun str_join :: "'a list \<Rightarrow> 'a list list \<Rightarrow> 'a list" where
  "str_join sep [] = []"
| "str_join sep [p] = p"
| "str_join sep (p # q # ps) = p @ sep @ str_join sep (q # ps)"

subsection \<open>Hexadecimal digits and the test for a percent escape\<close>

definition hexval :: "16 word \<Rightarrow> nat option" where
  "hexval c =
     (let n = unat c in
      if 48 \<le> n \<and> n \<le> 57 then Some (n - 48)
      else if 65 \<le> n \<and> n \<le> 70 then Some (n - 55)
      else if 97 \<le> n \<and> n \<le> 102 then Some (n - 87)
      else None)"

definition isHex :: "16 word \<Rightarrow> bool" where
  "isHex c = (hexval c \<noteq> None)"

text \<open>The regular expression \<open>/%[0-9A-Fa-f]{2}/\<close> of the source, as \<open>.test\<close> applies it.\<close>

fun has_pct_escape :: "jstring \<Rightarrow> bool" where
  "has_pct_escape [] = False"
| "has_pct_escape (c # cs) =
     ((c = cu CHR ''%'' \<and>
       (case cs of h1 # h2 # _ \<Rightarrow> isHex h1 \<and> isHex h2 | _ \<Rightarrow> False))
      \<or> has_pct_escape cs)"

section \<open>Platform functions\<close>

subsection \<open>\<open>atob\<close>: forgiving base64 decoding\<close>

definition isAsciiWhitespace :: "16 word \<Rightarrow> bool" where
  "isAsciiWhitespace c = (unat c \<in> {9, 10, 12, 13, 32})"

definition b64val :: "16 word \<Rightarrow> nat option" where
  "b64val c =
     (let n = unat c in
      if 65 \<le> n \<and> n \<le> 90 then Some (n - 65)
      else if 97 \<le> n \<and> n \<le> 122 then Some (n - 71)
      else if 48 \<le> n \<and> n \<le> 57 then Some (n + 4)
      else if n = 43 then Some 62
      else if n = 47 then Some 63
      else None)"

text \<open>Trailing padding is removed only when the length is a multiple of four.\<close>

definition strip_padding :: "jstring \<Rightarrow> jstring" where
  "strip_padding d =
     (if length d mod 4 = 0 then
        (case rev d of
           a # b # r \<Rightarrow>
             if a = cu CHR ''='' \<and> b = cu CHR ''='' then rev r
             else if a = cu CHR ''='' then rev (b # r)
             else d
         | _ \<Rightarrow> d)
      else d)"

fun b64_groups :: "nat list \<Rightarrow> nat list" where
  "b64_groups (a # b # c # d # r) =
     (let n = ((a * 64 + b) * 64 + c) * 64 + d
      in n div 65536 # (n div 256) mod 256 # n mod 256 # b64_groups r)"
| "b64_groups [a, b, c] =
     (let n = ((a * 64 + b) * 64 + c) div 4 in [n div 256, n mod 256])"
| "b64_groups [a, b] = [(a * 64 + b) div 16]"
| "b64_groups _ = []"

fun sextets :: "jstring \<Rightarrow> nat list option" where
  "sextets [] = Some []"
| "sextets (c # cs) =
     (case b64val c of
        None \<Rightarrow> None
      | Some v \<Rightarrow> (case sextets cs of None \<Rightarrow> None | Some vs \<Rightarrow> Some (v # vs)))"

definition atob :: "jstring \<Rightarrow> error + jstring" where
  "atob input =
     (let d = strip_padding (filter (\<lambda>c. \<not> isAsciiWhitespace c) input) in
      if length d mod 4 = 1 then Inl InvalidCharacterError
      else (case sextets d of
              None \<Rightarrow> Inl InvalidCharacterError
            | Some vs \<Rightarrow> Inr (map of_nat (b64_groups vs))))"

subsection \<open>\<open>decodeURIComponent\<close> and \<open>encodeURIComponent\<close>\<close>

definition parseHexOctet :: "16 word \<Rightarrow> 16 word \<Rightarrow> nat option" where
  "parseHexOctet h1 h2 =
     (case hexval h1 of
        None \<Rightarrow> None
      | Some a \<Rightarrow> (case hexval h2 of None \<Rightarrow> None | Some b \<Rightarrow> Some (16 * a + b)))"

text \<open>The number of leading one bits of an octet.\<close>

definition leading_ones :: "nat \<Rightarrow> nat" where
  "leading_ones b =
     (if b < 128 then 0 else if b < 192 then 1 else if b < 224 then 2
      else if b < 240 then 3 else if b < 248 then 4 else 5)"

text \<open>Reads \<open>k\<close> further escapes \<open>%XX\<close>, the continuation octets of a sequence.\<close>

fun take_octets :: "nat \<Rightarrow> jstring \<Rightarrow> (nat list \<times> jstring) option" where
  "take_octets 0 s = Some ([], s)"
| "take_octets (Suc k) (p # h1 # h2 # s) =
     (if p = cu CHR ''%'' then
        (case parseHexOctet h1 h2 of
           None \<Rightarrow> None
         | Some b \<Rightarrow>
             (case take_octets k s of
                None \<Rightarrow> None
              | Some (bs, r) \<Rightarrow> Some (b # bs, r)))
      else None)"
| "take_octets (Suc k) _ = None"

definition isCont :: "nat \<Rightarrow> bool" where
  "isCont b = (128 \<le> b \<and> b < 192)"

text \<open>
  The code point of a well-formed UTF-8 sequence of two to four octets: no overlong
  form, no surrogate, nothing above U+10FFFF.
\<close>

fun utf8_decode :: "nat list \<Rightarrow> nat option" where
  "utf8_decode [b0, b1] =
     (let v = (b0 - 192) * 64 + (b1 - 128)
      in if isCont b1 \<and> 128 \<le> v then Some v else None)"
| "utf8_decode [b0, b1, b2] =
     (let v = (b0 - 224) * 4096 + (b1 - 128) * 64 + (b2 - 128)
      in if isCont b1 \<and> isCont b2 \<and> 2048 \<le> v \<and> \<not> (55296 \<le> v \<and> v < 57344)
         then Some v else None)"
| "utf8_decode [b0, b1, b2, b3] =
     (let v = (b0 - 240) * 262144 + (b1 - 128) * 4096 + (b2 - 128) * 64 + (b3 - 128)
      in if isCont b1 \<and> isCont b2 \<and> isCont b3 \<and> 65536 \<le> v \<and> v \<le> 1114111
         then Some v else None)"
| "utf8_decode _ = None"

definition utf16_encode :: "nat \<Rightarrow> jstring" where
  "utf16_encode v =
     (if v < 65536 then [of_nat v]
      else [of_nat (55296 + (v - 65536) div 1024), of_nat (56320 + (v - 65536) mod 1024)])"

lemma take_octets_length:
  "take_octets k s = Some (bs, r) \<Longrightarrow> length r \<le> length s"
proof (induction k s arbitrary: bs r rule: take_octets.induct)
  case (1 s)
  then show ?case by simp
next
  case (2 k p h1 h2 s)
  then show ?case
    by (fastforce split: if_splits option.splits prod.splits)
qed simp_all

function decodeURIComponent_opt :: "jstring \<Rightarrow> jstring option" where
  "decodeURIComponent_opt [] = Some []"
| "decodeURIComponent_opt (c # s) =
     (if c \<noteq> cu CHR ''%'' then map_option (\<lambda>r. c # r) (decodeURIComponent_opt s)
      else
        (case s of
           h1 # h2 # rest \<Rightarrow>
             (case parseHexOctet h1 h2 of
                None \<Rightarrow> None
              | Some b \<Rightarrow>
                  (let n = leading_ones b in
                   if n = 0 then map_option (\<lambda>r. of_nat b # r) (decodeURIComponent_opt rest)
                   else if n = 1 \<or> 4 < n then None
                   else
                     (case take_octets (n - 1) rest of
                        None \<Rightarrow> None
                      | Some (bs, rest') \<Rightarrow>
                          (case utf8_decode (b # bs) of
                             None \<Rightarrow> None
                           | Some v \<Rightarrow>
                               map_option (\<lambda>r. utf16_encode v @ r)
                                 (decodeURIComponent_opt rest')))))
         | _ \<Rightarrow> None))"
  by pat_completeness auto
termination
  by (relation "measure length") (auto dest: take_octets_length)

definition decodeURIComponent :: "jstring \<Rightarrow> error + jstring" where
  "decodeURIComponent s =
     (case decodeURIComponent_opt s of None \<Rightarrow> Inl URIError | Some r \<Rightarrow> Inr r)"

text \<open>
  \<open>encodeURIComponent\<close>: letters, digits and \<open>-_.!~*'()\<close> stay; every other code point
  is written as the escapes of its UTF-8 octets, in upper-case hexadecimal. An unpaired
  surrogate raises \<open>URIError\<close>.
\<close>

definition isUnescaped :: "16 word \<Rightarrow> bool" where
  "isUnescaped c =
     (let n = unat c in
      (65 \<le> n \<and> n \<le> 90) \<or> (97 \<le> n \<and> n \<le> 122) \<or> (48 \<le> n \<and> n \<le> 57)
      \<or> n \<in> {45, 95, 46, 33, 126, 42, 39, 40, 41})"

definition hexdigit :: "nat \<Rightarrow> 16 word" where
  "hexdigit d = (if d < 10 then of_nat (48 + d) else of_nat (55 + d))"

definition pct_octet :: "nat \<Rightarrow> jstring" where
  "pct_octet b = [cu CHR ''%'', hexdigit (b div 16), hexdigit (b mod 16)]"

definition utf8_encode :: "nat \<Rightarrow> nat list" where
  "utf8_encode v =
     (if v < 128 then [v]
      else if v < 2048 then [192 + v div 64, 128 + v mod 64]
      else if v < 65536 then [224 + v div 4096, 128 + (v div 64) mod 64, 128 + v mod 64]
      else [240 + v div 262144, 128 + (v div 4096) mod 64,
            128 + (v div 64) mod 64, 128 + v mod 64])"

definition pct_encode :: "nat \<Rightarrow> jstring" where
  "pct_encode v = concat (map pct_octet (utf8_encode v))"

fun encodeURIComponent_opt :: "jstring \<Rightarrow> jstring option" where
  "encodeURIComponent_opt [] = Some []"
| "encodeURIComponent_opt (c # s) =
     (if isUnescaped c then map_option (\<lambda>r. c # r) (encodeURIComponent_opt s)
      else
        (let n = unat c in
         if n < 55296 \<or> 57344 \<le> n then
           map_option (\<lambda>r. pct_encode n @ r) (encodeURIComponent_opt s)
         else if 56320 \<le> n then None
         else
           (case s of
              [] \<Rightarrow> None
            | d # s' \<Rightarrow>
                (let m = unat d in
                 if 56320 \<le> m \<and> m < 57344 then
                   map_option
                     (\<lambda>r. pct_encode (65536 + (n - 55296) * 1024 + (m - 56320)) @ r)
                     (encodeURIComponent_opt s')
                 else None))))"

definition encodeURIComponent :: "jstring \<Rightarrow> error + jstring" where
  "encodeURIComponent s =
     (case encodeURIComponent_opt s of None \<Rightarrow> Inl URIError | Some r \<Rightarrow> Inr r)"

text \<open>\<open>String.prototype.isWellFormed\<close>: no surrogate stands without its partner.\<close>

fun isWellFormed :: "jstring \<Rightarrow> bool" where
  "isWellFormed [] = True"
| "isWellFormed (c # s) =
     (let n = unat c in
      if n < 55296 \<or> 57344 \<le> n then isWellFormed s
      else if 56320 \<le> n then False
      else (case s of
              [] \<Rightarrow> False
            | d # s' \<Rightarrow> 56320 \<le> unat d \<and> unat d < 57344 \<and> isWellFormed s'))"

subsection \<open>\<open>Number.prototype.toString\<close> on a non-negative integer\<close>

function toString :: "nat \<Rightarrow> jstring" where
  "toString n =
     (if n < 10 then [of_nat (48 + n)]
      else toString (n div 10) @ [of_nat (48 + n mod 10)])"
  by pat_completeness auto
termination
  by (relation "measure id") auto

declare toString.simps [simp del]

text \<open>The number that a string of decimal digits denotes.\<close>

definition dec_value :: "jstring \<Rightarrow> nat" where
  "dec_value s = foldl (\<lambda>a c. 10 * a + (unat c - 48)) 0 s"

subsection \<open>\<open>JSON.parse\<close>\<close>

text \<open>
  A JSON value. A number keeps its lexeme: no function of the source computes with one.
  An object lists its own properties in the order of their first insertion; a repeated
  key replaces the value, as \<open>JSON.parse\<close> does.
\<close>

datatype json =
    JNull
  | JBool bool
  | JNum jstring
  | JStr jstring
  | JArr "json list"
  | JObj "(jstring \<times> json) list"

fun obj_set :: "jstring \<Rightarrow> json \<Rightarrow> (jstring \<times> json) list \<Rightarrow> (jstring \<times> json) list" where
  "obj_set k v [] = [(k, v)]"
| "obj_set k v ((k', v') # kvs) =
     (if k = k' then (k, v) # kvs else (k', v') # obj_set k v kvs)"

definition obj_of :: "(jstring \<times> json) list \<Rightarrow> (jstring \<times> json) list" where
  "obj_of kvs = foldl (\<lambda>ob (k, v). obj_set k v ob) [] kvs"

definition isJsonWs :: "16 word \<Rightarrow> bool" where
  "isJsonWs c = (unat c \<in> {9, 10, 13, 32})"

definition skip_ws :: "jstring \<Rightarrow> jstring" where
  "skip_ws s = dropWhile isJsonWs s"

definition isDigit :: "16 word \<Rightarrow> bool" where
  "isDigit c = (48 \<le> unat c \<and> unat c \<le> 57)"

definition unescape :: "16 word \<Rightarrow> 16 word option" where
  "unescape e =
     (if e = cu CHR 0x22 then Some (cu CHR 0x22)
      else if e = cu CHR 0x5C then Some (cu CHR 0x5C)
      else if e = cu CHR ''/'' then Some (cu CHR ''/'')
      else if e = cu CHR ''b'' then Some 8
      else if e = cu CHR ''f'' then Some 12
      else if e = cu CHR ''n'' then Some 10
      else if e = cu CHR ''r'' then Some 13
      else if e = cu CHR ''t'' then Some 9
      else None)"

definition hex4 :: "16 word \<Rightarrow> 16 word \<Rightarrow> 16 word \<Rightarrow> 16 word \<Rightarrow> 16 word option" where
  "hex4 a b c d =
     (case (hexval a, hexval b, hexval c, hexval d) of
        (Some x, Some y, Some z, Some w) \<Rightarrow> Some (of_nat (((x * 16 + y) * 16 + z) * 16 + w))
      | _ \<Rightarrow> None)"

text \<open>The characters of a string literal, after its opening quote, up to the closing one.\<close>

fun parse_chars :: "jstring \<Rightarrow> (jstring \<times> jstring) option" where
  "parse_chars [] = None"
| "parse_chars (c # s) =
     (if c = cu CHR 0x22 then Some ([], s)
      else if c = cu CHR 0x5C then
        (case s of
           [] \<Rightarrow> None
         | e # s' \<Rightarrow>
             if e = cu CHR ''u'' then
               (case s' of
                  a # b # c' # d # s'' \<Rightarrow>
                    (case hex4 a b c' d of
                       None \<Rightarrow> None
                     | Some u \<Rightarrow>
                         (case parse_chars s'' of
                            None \<Rightarrow> None
                          | Some (t, r) \<Rightarrow> Some (u # t, r)))
                | _ \<Rightarrow> None)
             else
               (case unescape e of
                  None \<Rightarrow> None
                | Some u \<Rightarrow>
                    (case parse_chars s' of
                       None \<Rightarrow> None
                     | Some (t, r) \<Rightarrow> Some (u # t, r))))
      else if unat c < 32 then None
      else (case parse_chars s of None \<Rightarrow> None | Some (t, r) \<Rightarrow> Some (c # t, r)))"

text \<open>
  The lexeme of a number: an optional minus, \<open>0\<close> or digits without a leading zero, an
  optional fraction and an optional exponent, each with at least one digit.
\<close>

definition parse_number :: "jstring \<Rightarrow> (jstring \<times> jstring) option" where
  "parse_number s =
     (let sign = takeWhile (\<lambda>c. c = cu CHR ''-'') (take 1 s);
          s1 = drop (length sign) s;
          ds = takeWhile isDigit s1;
          s2 = dropWhile isDigit s1;
          dot = takeWhile (\<lambda>c. c = cu CHR ''.'') (take 1 s2);
          fs = (if dot = [] then [] else takeWhile isDigit (drop 1 s2));
          s3 = drop (length dot + length fs) s2;
          e = takeWhile (\<lambda>c. c = cu CHR ''e'' \<or> c = cu CHR ''E'') (take 1 s3);
          es = (if e = [] then []
                else takeWhile (\<lambda>c. c = cu CHR ''+'' \<or> c = cu CHR ''-'') (take 1 (drop 1 s3)));
          xs = (if e = [] then [] else takeWhile isDigit (drop (1 + length es) s3));
          s4 = drop (length e + length es + length xs) s3
      in if ds = [] \<or> (1 < length ds \<and> take 1 ds = js ''0'') then None
         else if dot \<noteq> [] \<and> fs = [] then None
         else if e \<noteq> [] \<and> xs = [] then None
         else Some (sign @ ds @ dot @ fs @ e @ es @ xs, s4))"

text \<open>
  Recursive descent over values, array elements and object members. The first argument
  bounds the depth of the calls; \<open>JSON_parse\<close> starts it above twice the length of the
  text, and between two nested calls for a value at least one character is consumed.
\<close>

fun parse_value :: "nat \<Rightarrow> jstring \<Rightarrow> (json \<times> jstring) option"
  and parse_elements :: "nat \<Rightarrow> jstring \<Rightarrow> (json list \<times> jstring) option"
  and parse_members :: "nat \<Rightarrow> jstring \<Rightarrow> ((jstring \<times> json) list \<times> jstring) option"
where
  "parse_value 0 s = None"
| "parse_value (Suc f) s =
     (case skip_ws s of
        [] \<Rightarrow> None
      | c # r \<Rightarrow>
          if c = cu CHR ''{'' then
            (case skip_ws r of
               [] \<Rightarrow> None
             | c2 # r2 \<Rightarrow>
                 if c2 = cu CHR ''}'' then Some (JObj [], r2)
                 else (case parse_members f (c2 # r2) of
                         None \<Rightarrow> None
                       | Some (kvs, r') \<Rightarrow> Some (JObj (obj_of kvs), r')))
          else if c = cu CHR ''['' then
            (case skip_ws r of
               [] \<Rightarrow> None
             | c2 # r2 \<Rightarrow>
                 if c2 = cu CHR '']'' then Some (JArr [], r2)
                 else (case parse_elements f (c2 # r2) of
                         None \<Rightarrow> None
                       | Some (vs, r') \<Rightarrow> Some (JArr vs, r')))
          else if c = cu CHR 0x22 then
            (case parse_chars r of None \<Rightarrow> None | Some (t, r') \<Rightarrow> Some (JStr t, r'))
          else if startsWith (c # r) (js ''true'') then Some (JBool True, drop 4 (c # r))
          else if startsWith (c # r) (js ''false'') then Some (JBool False, drop 5 (c # r))
          else if startsWith (c # r) (js ''null'') then Some (JNull, drop 4 (c # r))
          else (case parse_number (c # r) of
                  None \<Rightarrow> None
                | Some (l, r') \<Rightarrow> Some (JNum l, r')))"
| "parse_elements 0 s = None"
| "parse_elements (Suc f) s =
     (case parse_value f s of
        None \<Rightarrow> None
      | Some (v, r) \<Rightarrow>
          (case skip_ws r of
             [] \<Rightarrow> None
           | c # r' \<Rightarrow>
               if c = cu CHR '','' then
                 (case parse_elements f r' of
                    None \<Rightarrow> None
                  | Some (vs, r'') \<Rightarrow> Some (v # vs, r''))
               else if c = cu CHR '']'' then Some ([v], r')
               else None))"
| "parse_members 0 s = None"
| "parse_members (Suc f) s =
     (case skip_ws s of
        [] \<Rightarrow> None
      | c # r \<Rightarrow>
          if c = cu CHR 0x22 then
            (case parse_chars r of
               None \<Rightarrow> None
             | Some (k, r1) \<Rightarrow>
                 (case skip_ws r1 of
                    [] \<Rightarrow> None
                  | c1 # r2 \<Rightarrow>
                      if c1 = cu CHR '':'' then
                        (case parse_value f r2 of
                           None \<Rightarrow> None
                         | Some (v, r3) \<Rightarrow>
                             (case skip_ws r3 of
                                [] \<Rightarrow> None
                              | c3 # r4 \<Rightarrow>
                                  if c3 = cu CHR '','' then
                                    (case parse_members f r4 of
                                       None \<Rightarrow> None
                                     | Some (kvs, r5) \<Rightarrow> Some ((k, v) # kvs, r5))
                                  else if c3 = cu CHR ''}'' then Some ([(k, v)], r4)
                                  else None))
                      else None))
          else None)"

definition JSON_parse :: "jstring \<Rightarrow> error + json" where
  "JSON_parse text =
     (case parse_value (2 * length text + 2) text of
        None \<Rightarrow> Inl SyntaxError
      | Some (v, r) \<Rightarrow> if skip_ws r = [] then Inr v else Inl SyntaxError)"

section \<open>The URI decoder\<close>

text \<open>
  \<open>decodeDataURI\<close> of the source. The base64 branch takes the second piece of the split
  at commas and hands it to \<open>atob\<close>, whose exception is not caught; an index out of
  range would read \<open>undefined\<close>, which \<open>atob\<close> receives as the string \<open>undefined\<close>. The
  other branch catches the exception of \<open>decodeURIComponent\<close> and returns the raw data.
\<close>

definition decodeDataURI :: "jstring \<Rightarrow> error + jstring" where
  "decodeDataURI dataURI =
     (if str_includes dataURI (js '';base64,'') then
        (let base64Data =
               (case drop 1 (str_split (cu CHR '','') dataURI) of
                  [] \<Rightarrow> js ''undefined''
                | b # _ \<Rightarrow> b)
         in atob base64Data)
      else
        (let parts = str_split (cu CHR '','') dataURI in
         if length parts < 2 then Inr dataURI
         else
           (let data = str_join (js '','') (drop 1 parts) in
            if has_pct_escape data then
              (case decodeURIComponent data of
                 Inr r \<Rightarrow> Inr r
               | Inl e \<Rightarrow> Inr data)
            else Inr data)))"

text \<open>The text past the first comma of a string.\<close>

definition after_first :: "'a \<Rightarrow> 'a list \<Rightarrow> 'a list" where
  "after_first sep s = drop (Suc 0) (dropWhile (\<lambda>c. c \<noteq> sep) s)"

section \<open>The ensure-encoded transform\<close>

text \<open>
  \<open>ensureEncodedDataURI\<close> of the grid component. The exception of \<open>encodeURIComponent\<close>
  is not caught.
\<close>

definition ensureEncodedDataURI :: "jstring \<Rightarrow> error + jstring" where
  "ensureEncodedDataURI dataURI =
     (if str_includes dataURI (js '';base64,'') then Inr dataURI
      else
        (let parts = str_split (cu CHR '','') dataURI in
         if length parts < 2 then Inr dataURI
         else
           (let mimeType = (case parts of [] \<Rightarrow> js ''undefined'' | p # _ \<Rightarrow> p);
                svgContent = str_join (js '','') (drop 1 parts)
            in if has_pct_escape svgContent then Inr dataURI
               else
                 (case encodeURIComponent svgContent of
                    Inl e \<Rightarrow> Inl e
                  | Inr encodedContent \<Rightarrow> Inr (mimeType @ js '','' @ encodedContent)))))"

section \<open>Fetching one token\<close>

record NFT =
  tokenId :: jstring
  contractAddress :: jstring
  owner :: "jstring option"
  metadata :: json

text \<open>
  The outcome of the two chain reads of one attempt, \<open>tokenURI\<close> and \<open>ownerOf\<close>, and
  which of the two settles first. \<open>Promise.all\<close> rejects with the first rejection.
\<close>

record chain_reads =
  tokenURI_read :: "error + jstring"
  ownerOf_read :: "error + jstring"
  ownerOf_first :: bool

definition Promise_all2 :: "chain_reads \<Rightarrow> error + (jstring \<times> jstring)" where
  "Promise_all2 rd =
     (case tokenURI_read rd of
        Inr u \<Rightarrow> (case ownerOf_read rd of Inr ow \<Rightarrow> Inr (u, ow) | Inl e \<Rightarrow> Inl e)
      | Inl e1 \<Rightarrow>
          (case ownerOf_read rd of
             Inr ow \<Rightarrow> Inl e1
           | Inl e2 \<Rightarrow> Inl (if ownerOf_first rd then e2 else e1)))"

text \<open>
  The property \<open>image\<close> of a parsed value: reading a property of \<open>null\<close> raises, an object
  gives its own property, every other value gives \<open>undefined\<close>.
\<close>

definition image_prop :: "json \<Rightarrow> error + json option" where
  "image_prop md =
     (case md of
        JNull \<Rightarrow> Inl TypeError
      | JObj kvs \<Rightarrow> Inr (map_of kvs (js ''image''))
      | _ \<Rightarrow> Inr None)"

text \<open>
  The two logging lines of \<open>fetchNFTData\<close> that read \<open>metadata.image\<close>: the second calls
  \<open>substring\<close> on it unless it is \<open>undefined\<close> or \<open>null\<close>, and only a string has that method.
\<close>

definition log_image :: "json \<Rightarrow> error + unit" where
  "log_image md =
     (case image_prop md of
        Inl e \<Rightarrow> Inl e
      | Inr None \<Rightarrow> Inr ()
      | Inr (Some JNull) \<Rightarrow> Inr ()
      | Inr (Some (JStr s)) \<Rightarrow> Inr ()
      | Inr (Some _) \<Rightarrow> Inl TypeError)"

text \<open>The body of the \<open>try\<close> block of \<open>fetchNFTData\<close>, then the function with its \<open>catch\<close>.\<close>

definition fetchNFTData_try :: "jstring \<Rightarrow> nat \<Rightarrow> chain_reads \<Rightarrow> error + NFT" where
  "fetchNFTData_try addr tid rd =
     (let tokenIdString = toString tid in
      case Promise_all2 rd of
        Inl e \<Rightarrow> Inl e
      | Inr (tokenURI, own) \<Rightarrow>
          (case decodeDataURI tokenURI of
             Inl e \<Rightarrow> Inl e
           | Inr decodedJson \<Rightarrow>
               (case JSON_parse decodedJson of
                  Inl e \<Rightarrow> Inl e
                | Inr md \<Rightarrow>
                    (case log_image md of
                       Inl e \<Rightarrow> Inl e
                     | Inr _ \<Rightarrow>
                         Inr \<lparr>tokenId = tokenIdString, contractAddress = addr,
                              owner = Some own, metadata = md\<rparr>))))"

definition fetchNFTData :: "jstring \<Rightarrow> nat \<Rightarrow> chain_reads \<Rightarrow> error + NFT option" where
  "fetchNFTData addr tid rd =
     (case fetchNFTData_try addr tid rd of
        Inl e \<Rightarrow> Inr None
      | Inr nft \<Rightarrow> Inr (Some nft))"

text \<open>
  What one fetch does to the outside: \<open>Reads k\<close> issues the two chain reads of attempt
  \<open>k\<close>, \<open>Wait ms\<close> sleeps. The chain answers attempt \<open>k\<close> with \<open>reads k\<close>.
\<close>

datatype io_event = Reads nat | Wait nat

function retry_loop ::
  "jstring \<Rightarrow> nat \<Rightarrow> (nat \<Rightarrow> chain_reads) \<Rightarrow> nat \<Rightarrow> nat \<Rightarrow> (error + NFT option) \<times> io_event list"
where
  "retry_loop addr tid reads maxRetries attempt =
     (if attempt \<le> maxRetries then
        (case (case fetchNFTData addr tid (reads attempt) of
                 Inl e \<Rightarrow> Inl e
               | Inr None \<Rightarrow> Inl (NullResult tid)
               | Inr (Some result) \<Rightarrow> Inr result) of
           Inr result \<Rightarrow> (Inr (Some result), [Reads attempt])
         | Inl lastError \<Rightarrow>
             (let waits = (if attempt < maxRetries then [Wait (1000 * attempt)] else []);
                  (r, log) = retry_loop addr tid reads maxRetries (attempt + 1)
              in (r, Reads attempt # waits @ log)))
      else (Inr None, []))"
  by pat_completeness auto
termination
  by (relation "measure (\<lambda>(addr, tid, reads, maxRetries, attempt). Suc maxRetries - attempt)") auto

declare retry_loop.simps [simp del]

definition fetchNFTDataWithRetry ::
  "jstring \<Rightarrow> nat \<Rightarrow> (nat \<Rightarrow> chain_reads) \<Rightarrow> nat \<Rightarrow> (error + NFT option) \<times> io_event list"
where
  "fetchNFTDataWithRetry addr tid reads maxRetries = retry_loop addr tid reads maxRetries 1"

text \<open>
  The schedule of a fetch that fails from attempt \<open>a\<close> to attempt \<open>n\<close>: each attempt
  \<open>k\<close> reads once and, when another attempt follows, waits \<open>k\<close> times 1000 milliseconds.
\<close>

definition backoff_log :: "nat \<Rightarrow> nat \<Rightarrow> io_event list" where
  "backoff_log n a =
     concat (map (\<lambda>k. Reads k # (if k < n then [Wait (1000 * k)] else [])) [a..<Suc n])"

section \<open>Fetching one token by its identifier\<close>

definition getNFTById ::
  "jstring \<Rightarrow> jstring \<Rightarrow> (nat \<Rightarrow> chain_reads) \<Rightarrow> (error + NFT) \<times> io_event list"
where
  "getNFTById addr tid reads =
     ((case Promise_all2 (reads 1) of
         Inl e \<Rightarrow> Inl e
       | Inr (tokenURI, own) \<Rightarrow>
           (case decodeDataURI tokenURI of
              Inl e \<Rightarrow> Inl e
            | Inr decodedJson \<Rightarrow>
                (case JSON_parse decodedJson of
                   Inl e \<Rightarrow> Inl e
                 | Inr md \<Rightarrow>
                     Inr \<lparr>tokenId = tid, contractAddress = addr,
                          owner = Some own, metadata = md\<rparr>))),
      [Reads 1])"

section \<open>Fetching a collection\<close>

definition maxNFTs :: nat where
  "maxNFTs = 30"

definition batchSize :: nat where
  "batchSize = 5"

text \<open>
  What the collection fetch does, in order: \<open>Launch j\<close> starts the fetch of token \<open>j\<close>,
  \<open>AllSettled\<close> is the return of \<open>Promise.allSettled\<close> for the batch, \<open>Progress c t\<close> is a
  call of the progress callback.
\<close>

datatype event = Launch nat | AllSettled | Progress nat nat

record scan =
  processedCount :: nat
  nfts :: "NFT list"
  events :: "event list"

text \<open>The callback of \<open>batchResults.forEach\<close>, for one settled result.\<close>

definition forEach_result :: "bool \<Rightarrow> nat \<Rightarrow> scan \<Rightarrow> error + NFT option \<Rightarrow> scan" where
  "forEach_result onProgress totalTokens st result =
     (let st1 = st\<lparr>processedCount := processedCount st + 1\<rparr>;
          st2 = (case result of
                   Inr (Some v) \<Rightarrow> st1\<lparr>nfts := nfts st1 @ [v]\<rparr>
                 | _ \<Rightarrow> st1)
      in if onProgress
         then st2\<lparr>events := events st2 @ [Progress (processedCount st2) totalTokens]\<rparr>
         else st2)"

function batch_loop ::
  "jstring \<Rightarrow> (nat \<Rightarrow> nat \<Rightarrow> chain_reads) \<Rightarrow> bool \<Rightarrow> nat \<Rightarrow> nat \<Rightarrow> scan \<Rightarrow> scan"
where
  "batch_loop addr env onProgress totalTokens i st =
     (if i < totalTokens then
        (let end = min (i + batchSize) totalTokens;
             batch = [i..<end];
             batchResults = map (\<lambda>j. fst (fetchNFTDataWithRetry addr j (env j) 3)) batch;
             st1 = st\<lparr>events := events st @ map Launch batch @ [AllSettled]\<rparr>;
             st2 = foldl (forEach_result onProgress totalTokens) st1 batchResults
         in batch_loop addr env onProgress totalTokens (i + batchSize) st2)
      else st)"
  by pat_completeness auto
termination
  by (relation "measure (\<lambda>(addr, env, onProgress, totalTokens, i, st). totalTokens - i)")
     (auto simp: batchSize_def)

declare batch_loop.simps [simp del]

text \<open>
  \<open>getNFTsFromContract\<close>. The read of \<open>totalSupply\<close> gives a \<open>uint256\<close> or fails, and
  its failure is rethrown; the conversion to a number cannot bring a supply above 30
  below it, so the minimum with 30 is exact. The chain answers attempt \<open>k\<close> for token
  \<open>j\<close> with \<open>env j k\<close>. The flag \<open>onProgress\<close> says whether a callback was passed; a
  callback is taken to return normally.
\<close>

definition getNFTsFromContract ::
  "jstring \<Rightarrow> error + 256 word \<Rightarrow> (nat \<Rightarrow> nat \<Rightarrow> chain_reads) \<Rightarrow> bool
    \<Rightarrow> (error + NFT list) \<times> event list"
where
  "getNFTsFromContract addr totalSupply_read env onProgress =
     (case totalSupply_read of
        Inl e \<Rightarrow> (Inl e, [])
      | Inr totalSupply \<Rightarrow>
          (let totalTokens = min (unat totalSupply) maxNFTs in
           if totalTokens = 0 then (Inr [], [])
           else
             (let st = batch_loop addr env onProgress totalTokens 0
                         \<lparr>processedCount = 0, nfts = [], events = []\<rparr>
              in (Inr (nfts st), events st))))"

text \<open>
  What \<open>forEach\<close> pushes for one settled result, and what it pushes for token \<open>j\<close> of
  a collection fetch.
\<close>

definition pushed :: "error + NFT option \<Rightarrow> NFT list" where
  "pushed r = (case r of Inr (Some v) \<Rightarrow> [v] | _ \<Rightarrow> [])"

definition token_result :: "jstring \<Rightarrow> (nat \<Rightarrow> nat \<Rightarrow> chain_reads) \<Rightarrow> nat \<Rightarrow> NFT list" where
  "token_result addr env j = pushed (fst (fetchNFTDataWithRetry addr j (env j) 3))"

text \<open>The tokens launched and the calls of the progress callback, read off a trace.\<close>

fun launched :: "event list \<Rightarrow> nat list" where
  "launched [] = []"
| "launched (Launch j # evs) = j # launched evs"
| "launched (_ # evs) = launched evs"

fun progress_calls :: "event list \<Rightarrow> (nat \<times> nat) list" where
  "progress_calls [] = []"
| "progress_calls (Progress c t # evs) = (c, t) # progress_calls evs"
| "progress_calls (_ # evs) = progress_calls evs"

section \<open>Chains used in the examples\<close>

text \<open>
  A chain whose \<open>tokenURI\<close> read is always rejected, one whose token metadata is the JSON
  object \<open>{"name":"Test"}\<close>, as a base64 and as a plain data-URI, and one whose data-URI
  carries the truncated text \<open>{\<close>.
\<close>

definition rejecting_reads :: chain_reads where
  "rejecting_reads =
     \<lparr>tokenURI_read = Inl (ChainError 1), ownerOf_read = Inr (js ''0xabc''),
      ownerOf_first = False\<rparr>"

definition rejecting_token :: "nat \<Rightarrow> chain_reads" where
  "rejecting_token k = rejecting_reads"

definition rejecting_chain :: "nat \<Rightarrow> nat \<Rightarrow> chain_reads" where
  "rejecting_chain j k = rejecting_reads"

definition name_only_token :: "nat \<Rightarrow> chain_reads" where
  "name_only_token k =
     \<lparr>tokenURI_read = Inr (js ''data:application/json;base64,eyJuYW1lIjoiVGVzdCJ9''),
      ownerOf_read = Inr (js ''0xabc''), ownerOf_first = False\<rparr>"

definition plain_name_token :: "nat \<Rightarrow> chain_reads" where
  "plain_name_token k =
     \<lparr>tokenURI_read = Inr (js ''data:application/json,{\"name\":\"Test\"}''),
      ownerOf_read = Inr (js ''0xabc''), ownerOf_first = False\<rparr>"

definition truncated_token :: "nat \<Rightarrow> chain_reads" where
  "truncated_token k =
     \<lparr>tokenURI_read = Inr (js ''data:application/json,{''),
      ownerOf_read = Inr (js ''0xabc''), ownerOf_first = False\<rparr>"

section \<open>Splitting and joining\<close>

lemma str_split_no_sep: "sep \<notin> set s \<Longrightarrow> str_split sep s = [s]"
proof -
  assume a: "sep \<notin> set s"
  then have d: "dropWhile (\<lambda>c. c \<noteq> sep) s = []" by auto
  from a have t: "takeWhile (\<lambda>c. c \<noteq> sep) s = s" by auto
  show ?thesis by (subst str_split.simps) (simp only: d t list.case)
qed

lemma str_split_sep:
  "sep \<in> set s \<Longrightarrow>
   str_split sep s = takeWhile (\<lambda>c. c \<noteq> sep) s # str_split sep (after_first sep s)"
proof -
  assume a: "sep \<in> set s"
  then have "dropWhile (\<lambda>c. c \<noteq> sep) s \<noteq> []" by auto
  then obtain x rest where d: "dropWhile (\<lambda>c. c \<noteq> sep) s = x # rest"
    by (cases "dropWhile (\<lambda>c. c \<noteq> sep) s") auto
  show ?thesis by (subst str_split.simps) (simp add: d after_first_def)
qed

lemma str_split_not_Nil: "str_split sep s \<noteq> []"
  by (subst str_split.simps) (simp split: list.splits)

lemma str_join_Cons: "ps \<noteq> [] \<Longrightarrow> str_join sep (p # ps) = p @ sep @ str_join sep ps"
  by (cases ps) simp_all

lemma takeWhile_after_first:
  "sep \<in> set s \<Longrightarrow> takeWhile (\<lambda>c. c \<noteq> sep) s @ sep # after_first sep s = s"
proof -
  assume a: "sep \<in> set s"
  then have "dropWhile (\<lambda>c. c \<noteq> sep) s \<noteq> []" by auto
  then obtain x rest where d: "dropWhile (\<lambda>c. c \<noteq> sep) s = x # rest"
    by (cases "dropWhile (\<lambda>c. c \<noteq> sep) s") auto
  have x: "x = sep" using hd_dropWhile [of "\<lambda>c. c \<noteq> sep" s] d by simp
  show ?thesis
    using takeWhile_dropWhile_id [of "\<lambda>c. c \<noteq> sep" s] d x by (simp add: after_first_def)
qed

lemma length_after_first: "sep \<in> set s \<Longrightarrow> length (after_first sep s) < length s"
proof -
  assume "sep \<in> set s"
  then have "length (takeWhile (\<lambda>c. c \<noteq> sep) s @ sep # after_first sep s) = length s"
    by (simp only: takeWhile_after_first)
  then show ?thesis by simp
qed

text \<open>Joining the pieces of a split with the separator gives the string back.\<close>

lemma str_join_split: "str_join [sep] (str_split sep s) = s"
proof (induction s rule: length_induct)
  case (1 s)
  show ?case
  proof (cases "sep \<in> set s")
    case False
    then show ?thesis by (simp add: str_split_no_sep)
  next
    case True
    have "str_join [sep] (str_split sep (after_first sep s)) = after_first sep s"
      using 1 length_after_first [OF True] by blast
    then have "str_join [sep] (str_split sep s) =
        takeWhile (\<lambda>c. c \<noteq> sep) s @ sep # after_first sep s"
      by (simp add: str_split_sep [OF True] str_join_Cons str_split_not_Nil)
    then show ?thesis by (simp only: takeWhile_after_first [OF True])
  qed
qed

lemma length_str_split: "length (str_split sep s) < 2 \<longleftrightarrow> sep \<notin> set s"
proof (cases "sep \<in> set s")
  case True
  obtain q qs where "str_split sep (after_first sep s) = q # qs"
    using str_split_not_Nil [of sep "after_first sep s"]
    by (cases "str_split sep (after_first sep s)") auto
  then show ?thesis using True by (simp add: str_split_sep)
next
  case False
  then show ?thesis by (simp add: str_split_no_sep)
qed

lemma join_rest_split:
  "sep \<in> set s \<Longrightarrow> str_join [sep] (drop (Suc 0) (str_split sep s)) = after_first sep s"
  by (simp add: str_split_sep str_join_split)

lemma has_pct_escape_tl: "has_pct_escape (drop (Suc 0) s) \<Longrightarrow> has_pct_escape s"
  by (cases s) simp_all

lemma has_pct_escape_dropWhile: "has_pct_escape (dropWhile P s) \<Longrightarrow> has_pct_escape s"
  by (induction s) (auto split: if_splits)

lemma has_pct_escape_after_first: "has_pct_escape (after_first sep s) \<Longrightarrow> has_pct_escape s"
  unfolding after_first_def
  by (blast intro: has_pct_escape_tl has_pct_escape_dropWhile)

lemma js_comma: "js '','' = [cu CHR '','']"
  by (simp add: js_def)

section \<open>The URI decoder on input without the base64 marker\<close>

text \<open>
  Without the marker \<open>;base64,\<close> the decoder never raises. A string with no comma comes
  back as it is; otherwise the result is the text past the first comma, percent-decoded
  when that text holds an escape \<open>%XX\<close> and decodes, and raw when it does not.
\<close>

lemma decodeDataURI_plain:
  assumes "\<not> str_includes s (js '';base64,'')"
  shows "decodeDataURI s =
     Inr (if cu CHR '','' \<in> set s then
            (let d = after_first (cu CHR '','') s in
             if has_pct_escape d then
               (case decodeURIComponent d of Inr r \<Rightarrow> r | Inl e \<Rightarrow> d)
             else d)
          else s)"
  using assms
  by (simp add: decodeDataURI_def Let_def length_str_split js_comma join_rest_split
      split: sum.splits)

text \<open>
  C5, as the code has it. A string with no escape \<open>%XX\<close> and no marker \<open>;base64,\<close> comes
  back unchanged when it holds no comma; when it holds one, the decoder returns the text
  past the first comma, itself unchanged.
\<close>

theorem decodeDataURI_no_escape:
  assumes "\<not> str_includes s (js '';base64,'')" and "\<not> has_pct_escape s"
  shows "decodeDataURI s =
     Inr (if cu CHR '','' \<in> set s then after_first (cu CHR '','') s else s)"
proof -
  have "\<not> has_pct_escape (after_first (cu CHR '','') s)"
    using assms(2) has_pct_escape_after_first by blast
  then show ?thesis
    by (simp add: decodeDataURI_plain [OF assms(1)])
qed

theorem decodeDataURI_no_escape_witness:
  "\<not> str_includes (js ''data:image/svg+xml,<svg/>'') (js '';base64,'') \<and>
   \<not> has_pct_escape (js ''data:image/svg+xml,<svg/>'') \<and>
   decodeDataURI (js ''data:image/svg+xml,<svg/>'') = Inr (js ''<svg/>'')"
proof -
  have h1: "\<not> str_includes (js ''data:image/svg+xml,<svg/>'') (js '';base64,'')"
    by code_simp
  have h2: "\<not> has_pct_escape (js ''data:image/svg+xml,<svg/>'')"
    by code_simp
  have "after_first (cu CHR '','') (js ''data:image/svg+xml,<svg/>'') = js ''<svg/>''"
    by code_simp
  moreover have "cu CHR '','' \<in> set (js ''data:image/svg+xml,<svg/>'')"
    by code_simp
  ultimately show ?thesis
    using h1 h2 decodeDataURI_no_escape [OF h1 h2] by simp
qed

text \<open>
  C5 as stated fails: a data-URI with a plain payload has no escape and no base64 marker,
  and the decoder returns its payload, not the whole string.
\<close>

theorem decodeDataURI_unchanged_counterexample:
  "\<not> str_includes (js ''data:image/svg+xml,<svg/>'') (js '';base64,'') \<and>
   \<not> has_pct_escape (js ''data:image/svg+xml,<svg/>'') \<and>
   decodeDataURI (js ''data:image/svg+xml,<svg/>'') \<noteq> Inr (js ''data:image/svg+xml,<svg/>'')"
  by code_simp

text \<open>
  C6, as the code has it. For every string without the marker \<open>;base64,\<close>, a data-URI or
  not: with no comma the decoder returns the string itself, not the empty string; with a
  comma it returns the text past the first comma, percent-decoded when that text holds an
  escape \<open>%XX\<close> and decodes, and raw otherwise.
\<close>

theorem decodeDataURI_fallback:
  assumes "\<not> str_includes s (js '';base64,'')"
  shows "(cu CHR '','' \<notin> set s \<and> decodeDataURI s = Inr s) \<or>
         (cu CHR '','' \<in> set s \<and> \<not> has_pct_escape (after_first (cu CHR '','') s) \<and>
            decodeDataURI s = Inr (after_first (cu CHR '','') s)) \<or>
         (cu CHR '','' \<in> set s \<and> has_pct_escape (after_first (cu CHR '','') s) \<and>
            (\<exists>r. decodeURIComponent (after_first (cu CHR '','') s) = Inr r \<and>
                 decodeDataURI s = Inr r)) \<or>
         (cu CHR '','' \<in> set s \<and> has_pct_escape (after_first (cu CHR '','') s) \<and>
            decodeURIComponent (after_first (cu CHR '','') s) = Inl URIError \<and>
            decodeDataURI s = Inr (after_first (cu CHR '','') s))"
proof (cases "decodeURIComponent (after_first (cu CHR '','') s)")
  case (Inl e)
  then have "e = URIError"
    by (simp add: decodeURIComponent_def split: option.splits)
  with Inl show ?thesis
    by (auto simp: decodeDataURI_plain [OF assms] Let_def)
next
  case (Inr r)
  then show ?thesis
    by (auto simp: decodeDataURI_plain [OF assms] Let_def)
qed

theorem decodeDataURI_fallback_witness:
  "\<not> str_includes (js ''hello'') (js '';base64,'') \<and>
   cu CHR '','' \<notin> set (js ''hello'') \<and> decodeDataURI (js ''hello'') = Inr (js ''hello'')"
proof -
  have h: "\<not> str_includes (js ''hello'') (js '';base64,'')"
    by code_simp
  have c: "cu CHR '','' \<notin> set (js ''hello'')"
    by code_simp
  show ?thesis
    using h c decodeDataURI_fallback [OF h] by simp
qed

text \<open>
  C6 as stated fails on both halves: a string with no comma is returned whole, not as
  the empty string, and the text past the comma is percent-decoded when it holds an
  escape.
\<close>

theorem decodeDataURI_fallback_counterexample:
  "\<not> startsWith (js ''hello'') (js ''data:'') \<and>
   \<not> str_includes (js ''hello'') (js '';base64,'') \<and>
   cu CHR '','' \<notin> set (js ''hello'') \<and>
   decodeDataURI (js ''hello'') \<noteq> Inr [] \<and>
   \<not> startsWith (js ''x,%41'') (js ''data:'') \<and>
   \<not> str_includes (js ''x,%41'') (js '';base64,'') \<and>
   after_first (cu CHR '','') (js ''x,%41'') = js ''%41'' \<and>
   decodeDataURI (js ''x,%41'') = Inr (js ''A'')"
  by code_simp

section \<open>The URI decoder on a malformed base64 payload\<close>

text \<open>
  C3, at an input where the code departs from it: the payload after \<open>;base64,\<close> is not
  base64, \<open>atob\<close> raises, and nothing in \<open>decodeDataURI\<close> catches the exception.
\<close>

theorem decodeDataURI_base64_raises:
  "decodeDataURI (js ''data:application/json;base64,!!!'') = Inl InvalidCharacterError"
  by code_simp

section \<open>The single-token fetcher\<close>

lemma fetchNFTData_never_raises: "\<exists>r. fetchNFTData addr tid rd = Inr r"
  by (simp add: fetchNFTData_def split: sum.splits)

lemma fetchNFTData_failure:
  "isl (fetchNFTData_try addr tid rd) \<Longrightarrow> fetchNFTData addr tid rd = Inr None"
  by (auto simp: fetchNFTData_def split: sum.splits)

lemma fetchNFTData_success:
  "fetchNFTData_try addr tid rd = Inr nft \<Longrightarrow> fetchNFTData addr tid rd = Inr (Some nft)"
  by (simp add: fetchNFTData_def)

lemma backoff_log_step:
  "a \<le> n \<Longrightarrow>
   backoff_log n a = Reads a # (if a < n then [Wait (1000 * a)] else []) @ backoff_log n (Suc a)"
  by (simp add: backoff_log_def upt_conv_Cons)

lemma backoff_log_done: "n < a \<Longrightarrow> backoff_log n a = []"
  by (simp add: backoff_log_def)

lemma retry_loop_all_fail:
  "(\<And>k. a \<le> k \<Longrightarrow> k \<le> n \<Longrightarrow> isl (fetchNFTData_try addr tid (reads k))) \<Longrightarrow>
   retry_loop addr tid reads n a = (Inr None, backoff_log n a)"
proof (induction addr tid reads n a rule: retry_loop.induct)
  case (1 addr tid reads maxRetries attempt)
  show ?case
  proof (cases "attempt \<le> maxRetries")
    case False
    then show ?thesis
      by (subst retry_loop.simps) (simp add: backoff_log_done)
  next
    case True
    have f: "fetchNFTData addr tid (reads attempt) = Inr None"
      using "1.prems" [of attempt] True by (simp add: fetchNFTData_failure)
    have "retry_loop addr tid reads maxRetries (attempt + 1) =
        (Inr None, backoff_log maxRetries (attempt + 1))"
      using "1.IH" [OF True, of "NullResult tid"] f "1.prems" by simp
    then show ?thesis
      using True f
      by (subst retry_loop.simps) (simp add: backoff_log_step)
  qed
qed

lemma retry_loop_first_success:
  "attempt \<le> n \<Longrightarrow> fetchNFTData_try addr tid (reads attempt) = Inr nft \<Longrightarrow>
   retry_loop addr tid reads n attempt = (Inr (Some nft), [Reads attempt])"
  by (subst retry_loop.simps) (simp add: fetchNFTData_success)

text \<open>Whatever the chain answers, the retrying fetch returns a value: it never raises.\<close>

lemma retry_loop_never_raises: "\<exists>r. fst (retry_loop addr tid reads n a) = Inr r"
proof (induction addr tid reads n a rule: retry_loop.induct)
  case (1 addr tid reads maxRetries attempt)
  show ?case
  proof (cases "attempt \<le> maxRetries")
    case False
    then show ?thesis
      by (subst retry_loop.simps) simp
  next
    case True
    obtain r where r: "fetchNFTData addr tid (reads attempt) = Inr r"
      using fetchNFTData_never_raises by blast
    show ?thesis
    proof (cases r)
      case None
      with r True "1.IH" [OF True, of "NullResult tid"] show ?thesis
        by (subst retry_loop.simps) (simp add: split_beta)
    next
      case (Some nft)
      with r True show ?thesis
        by (subst retry_loop.simps) simp
    qed
  qed
qed

text \<open>
  C9. When every attempt of the budget \<open>n\<close> fails, the retrying fetch returns the value
  \<open>null\<close>, it does not raise, and between the attempts it waits 1000 milliseconds times
  the number of the attempt just made: one read per attempt, a wait after each attempt
  but the last.
\<close>

theorem retry_exhaustion:
  assumes "\<And>k. 1 \<le> k \<Longrightarrow> k \<le> n \<Longrightarrow> isl (fetchNFTData_try addr tid (reads k))"
  shows "fetchNFTDataWithRetry addr tid reads n = (Inr None, backoff_log n 1)"
  unfolding fetchNFTDataWithRetry_def
  using assms by (rule retry_loop_all_fail)

theorem retry_exhaustion_witness:
  "isl (fetchNFTData_try (js ''0x01'') 4 rejecting_reads) \<and>
   fetchNFTDataWithRetry (js ''0x01'') 4 rejecting_token 3
     = (Inr None, [Reads 1, Wait 1000, Reads 2, Wait 2000, Reads 3])"
proof -
  have h: "isl (fetchNFTData_try (js ''0x01'') 4 rejecting_reads)"
    by (simp add: fetchNFTData_try_def Promise_all2_def rejecting_reads_def)
  have b: "backoff_log 3 1 = [Reads 1, Wait 1000, Reads 2, Wait 2000, Reads 3]"
    by (simp add: backoff_log_def upt_rec)
  show ?thesis
    using h b retry_exhaustion [of 3 "js ''0x01''" 4 rejecting_token]
    by (simp add: rejecting_token_def)
qed

text \<open>
  C2, as the code has it. The parsed value is cast, not validated: when both reads
  succeed and the decoded payload parses to a value that has no property \<open>image\<close>, the
  attempt succeeds, and the retrying fetch returns on its first attempt the record
  whose metadata is that value.
\<close>

theorem fetchNFTData_missing_image:
  assumes "tokenURI_read (reads 1) = Inr u" and "ownerOf_read (reads 1) = Inr ow"
    and "decodeDataURI u = Inr d" and "JSON_parse d = Inr md"
    and "image_prop md = Inr None"
  shows "fetchNFTData addr tid (reads 1) =
           Inr (Some \<lparr>tokenId = toString tid, contractAddress = addr,
                      owner = Some ow, metadata = md\<rparr>) \<and>
         fetchNFTDataWithRetry addr tid reads (Suc n) =
           (Inr (Some \<lparr>tokenId = toString tid, contractAddress = addr,
                       owner = Some ow, metadata = md\<rparr>), [Reads 1])"
proof -
  have t: "fetchNFTData_try addr tid (reads 1) =
      Inr \<lparr>tokenId = toString tid, contractAddress = addr, owner = Some ow, metadata = md\<rparr>"
    using assms
    by (simp add: fetchNFTData_try_def Promise_all2_def log_image_def)
  show ?thesis
    using t retry_loop_first_success [of 1 "Suc n" addr tid reads, OF _ t]
    by (simp add: fetchNFTData_success fetchNFTDataWithRetry_def)
qed

theorem fetchNFTData_missing_image_witness:
  "fetchNFTDataWithRetry (js ''0x01'') 0 plain_name_token 3
   = (Inr (Some \<lparr>tokenId = toString 0, contractAddress = js ''0x01'',
                  owner = Some (js ''0xabc''),
                  metadata = JObj [(js ''name'', JStr (js ''Test''))]\<rparr>), [Reads 1])"
proof -
  have d: "decodeDataURI (js ''data:application/json,{\"name\":\"Test\"}'')
      = Inr (js ''{\"name\":\"Test\"}'')"
    by code_simp
  have p: "JSON_parse (js ''{\"name\":\"Test\"}'')
      = Inr (JObj [(js ''name'', JStr (js ''Test''))])"
    by code_simp
  have i: "image_prop (JObj [(js ''name'', JStr (js ''Test''))]) = Inr None"
    by code_simp
  show ?thesis
    using fetchNFTData_missing_image [of plain_name_token
        "js ''data:application/json,{\"name\":\"Test\"}''" "js ''0xabc''"
        "js ''{\"name\":\"Test\"}''" "JObj [(js ''name'', JStr (js ''Test''))]"
        "js ''0x01''" 0 2, OF _ _ d p i]
    by (simp add: eval_nat_numeral plain_name_token_def)
qed

text \<open>
  C2 as stated fails on the base64 data-URI of the specification's own scenario: its
  payload decodes to a JSON object with a name and no image, and the fetch returns the
  record for token 0 on the first attempt.
\<close>

theorem fetchNFTData_missing_image_counterexample:
  "fetchNFTDataWithRetry (js ''0x01'') 0 name_only_token 3
   = (Inr (Some \<lparr>tokenId = js ''0'', contractAddress = js ''0x01'',
                  owner = Some (js ''0xabc''),
                  metadata = JObj [(js ''name'', JStr (js ''Test''))]\<rparr>), [Reads 1]) \<and>
   image_prop (JObj [(js ''name'', JStr (js ''Test''))]) = Inr None"
proof -
  have d: "decodeDataURI (js ''data:application/json;base64,eyJuYW1lIjoiVGVzdCJ9'')
      = Inr (js ''{\"name\":\"Test\"}'')"
    by (simp add: decodeDataURI_def js_def cu_def str_split.simps atob_def strip_padding_def
        b64val_def isAsciiWhitespace_def)
  have p: "JSON_parse (js ''{\"name\":\"Test\"}'')
      = Inr (JObj [(js ''name'', JStr (js ''Test''))])"
    by code_simp
  have i: "image_prop (JObj [(js ''name'', JStr (js ''Test''))]) = Inr None"
    by code_simp
  have s: "toString 0 = js ''0''"
    by code_simp
  have "fetchNFTData_try (js ''0x01'') 0 (name_only_token 1)
     = Inr \<lparr>tokenId = js ''0'', contractAddress = js ''0x01'', owner = Some (js ''0xabc''),
            metadata = JObj [(js ''name'', JStr (js ''Test''))]\<rparr>"
    by (simp add: fetchNFTData_try_def Promise_all2_def log_image_def name_only_token_def
        d p i s)
  then show ?thesis
    using i by (simp add: fetchNFTDataWithRetry_def retry_loop.simps fetchNFTData_def)
qed

section \<open>The lookup of one token\<close>

text \<open>
  C10. \<open>getNFTById\<close> has no retry: when a chain read is rejected, when the decoder
  raises, or when the decoded text does not parse, that error is what the call throws,
  after the one pair of reads and with no wait.
\<close>

theorem getNFTById_no_retry:
  assumes "(tokenURI_read (reads 1) = Inl e \<and>
              \<not> (isl (ownerOf_read (reads 1)) \<and> ownerOf_first (reads 1))) \<or>
           (ownerOf_read (reads 1) = Inl e \<and>
              \<not> (isl (tokenURI_read (reads 1)) \<and> \<not> ownerOf_first (reads 1))) \<or>
           (\<exists>u ow. tokenURI_read (reads 1) = Inr u \<and> ownerOf_read (reads 1) = Inr ow \<and>
              decodeDataURI u = Inl e) \<or>
           (\<exists>u ow d. tokenURI_read (reads 1) = Inr u \<and> ownerOf_read (reads 1) = Inr ow \<and>
              decodeDataURI u = Inr d \<and> JSON_parse d = Inl e)"
  shows "getNFTById addr tid reads = (Inl e, [Reads 1])"
  using assms
  by (auto simp: getNFTById_def Promise_all2_def split: sum.splits)

theorem getNFTById_no_retry_witness:
  "getNFTById (js ''0x01'') (js ''4'') truncated_token = (Inl SyntaxError, [Reads 1])"
proof -
  have d: "decodeDataURI (js ''data:application/json,{'') = Inr (js ''{'')"
    by code_simp
  have p: "JSON_parse (js ''{'') = Inl SyntaxError"
    by code_simp
  show ?thesis
    using d p getNFTById_no_retry [of truncated_token SyntaxError "js ''0x01''" "js ''4''"]
    by (simp add: truncated_token_def)
qed

section \<open>Token identifiers\<close>

text \<open>The decimal text of a number determines the number.\<close>

lemma unat_of_nat_16: "n < 65536 \<Longrightarrow> unat (of_nat n :: 16 word) = n"
  by (simp add: unat_of_nat)

lemma digit_unat: "d < 10 \<Longrightarrow> unat (48 + of_nat d :: 16 word) = 48 + d"
  using unat_of_nat_16 [of "48 + d"] by simp

lemma dec_value_toString: "dec_value (toString n) = n"
proof (induction n rule: toString.induct)
  case (1 n)
  show ?case
  proof (cases "n < 10")
    case True
    then show ?thesis
      by (subst toString.simps) (simp add: dec_value_def digit_unat)
  next
    case False
    have "dec_value (toString (n div 10)) = n div 10" using 1 False by simp
    then show ?thesis
      using False
      by (subst toString.simps) (simp add: dec_value_def digit_unat)
  qed
qed

lemma inj_toString: "inj toString"
  by (rule inj_on_inverseI [where g = dec_value]) (simp add: dec_value_toString)

lemma fetchNFTData_try_tokenId:
  "fetchNFTData_try addr tid rd = Inr nft \<Longrightarrow> tokenId nft = toString tid"
  by (auto simp: fetchNFTData_try_def Let_def split: sum.splits prod.splits)

lemma fetchNFTData_tokenId:
  "fetchNFTData addr tid rd = Inr (Some nft) \<Longrightarrow> tokenId nft = toString tid"
  by (auto simp: fetchNFTData_def fetchNFTData_try_tokenId split: sum.splits)

lemma retry_loop_tokenId:
  "fst (retry_loop addr tid reads n a) = Inr (Some nft) \<Longrightarrow> tokenId nft = toString tid"
proof (induction addr tid reads n a rule: retry_loop.induct)
  case (1 addr tid reads maxRetries attempt)
  show ?case
  proof (cases "attempt \<le> maxRetries")
    case False
    with "1.prems" show ?thesis
      by (subst (asm) retry_loop.simps) simp
  next
    case True
    obtain r where r: "fetchNFTData addr tid (reads attempt) = Inr r"
      using fetchNFTData_never_raises by blast
    show ?thesis
    proof (cases r)
      case None
      have "fst (retry_loop addr tid reads maxRetries (attempt + 1)) = Inr (Some nft)"
        using "1.prems" r None True
        by (subst (asm) retry_loop.simps) (simp add: split_beta)
      then show ?thesis
        using "1.IH" [OF True, of "NullResult tid"] r None by simp
    next
      case (Some v)
      have "v = nft"
        using "1.prems" r Some True
        by (subst (asm) retry_loop.simps) simp
      then show ?thesis
        using r Some fetchNFTData_tokenId by blast
    qed
  qed
qed

section \<open>The collection fetcher\<close>

lemma launched_append: "launched (xs @ ys) = launched xs @ launched ys"
  by (induction xs rule: launched.induct) simp_all

lemma launched_map_Launch: "launched (map Launch ks) = ks"
  by (induction ks) simp_all

lemma launched_map_Progress: "launched (map (\<lambda>k. Progress k t) ks) = []"
  by (induction ks) simp_all

lemma progress_calls_append:
  "progress_calls (xs @ ys) = progress_calls xs @ progress_calls ys"
  by (induction xs rule: progress_calls.induct) simp_all

lemma progress_calls_map_Launch: "progress_calls (map Launch ks) = []"
  by (induction ks) simp_all

lemma progress_calls_map_Progress:
  "progress_calls (map (\<lambda>k. Progress k t) ks) = map (\<lambda>k. (k, t)) ks"
  by (induction ks) simp_all

lemma upt_Suc_Cons: "[Suc p..<Suc (Suc (p + n))] = Suc p # [Suc (Suc p)..<Suc (Suc (p + n))]"
  by (simp add: upt_conv_Cons)

lemma forEach_result_fold:
  "foldl (forEach_result cb tt) st rs =
     st\<lparr>processedCount := processedCount st + length rs,
        nfts := nfts st @ concat (map pushed rs),
        events := events st @
          (if cb then map (\<lambda>k. Progress k tt)
                        [Suc (processedCount st)..<Suc (processedCount st + length rs)]
           else [])\<rparr>"
proof (induction rs arbitrary: st)
  case Nil
  then show ?case by simp
next
  case (Cons r rs)
  have step: "forEach_result cb tt st r =
      st\<lparr>processedCount := Suc (processedCount st),
         nfts := nfts st @ pushed r,
         events := events st @
           (if cb then [Progress (Suc (processedCount st)) tt] else [])\<rparr>"
    by (simp add: forEach_result_def pushed_def Let_def split: sum.splits option.splits)
  show ?case
    by (simp add: Cons.IH step upt_Suc_Cons del: upt_Suc)
qed

lemma upt_batch:
  "i < tt \<Longrightarrow> [i..<tt] = [i..<min (i + batchSize) tt] @ [i + batchSize..<tt]"
proof (cases "i + batchSize \<le> tt")
  case True
  assume "i < tt"
  have "[i..<tt] = [i..<i + batchSize] @ [i + batchSize..<tt]"
    using True upt_add_eq_append [of i "i + batchSize" "tt - (i + batchSize)"] by simp
  then show ?thesis using True by (simp add: min_def)
next
  case False
  then show ?thesis by (simp add: min_def)
qed

text \<open>One turn of the loop over the batches, with the fold over the settled results done.\<close>

lemma batch_loop_step:
  "i < tt \<Longrightarrow>
   batch_loop addr env cb tt i st =
     batch_loop addr env cb tt (i + batchSize)
       (st\<lparr>processedCount := processedCount st + (min (i + batchSize) tt - i),
          nfts := nfts st @ concat (map (token_result addr env) [i..<min (i + batchSize) tt]),
          events := events st @ map Launch [i..<min (i + batchSize) tt] @ [AllSettled] @
            (if cb then map (\<lambda>k. Progress k tt)
                [Suc (processedCount st)..<
                 Suc (processedCount st + (min (i + batchSize) tt - i))]
             else [])\<rparr>)"
proof -
  have t: "token_result addr env = (\<lambda>j. pushed (fst (fetchNFTDataWithRetry addr j (env j) 3)))"
    by (rule ext) (simp add: token_result_def)
  assume "i < tt"
  then show ?thesis
    by (subst batch_loop.simps)
       (simp add: Let_def forEach_result_fold t comp_def del: upt_Suc)
qed

lemma batch_loop_done: "\<not> i < tt \<Longrightarrow> batch_loop addr env cb tt i st = st"
  by (subst batch_loop.simps) simp

lemma batch_loop_nfts:
  "nfts (batch_loop addr env cb tt i st) =
     nfts st @ concat (map (token_result addr env) [i..<tt])"
proof (induction "tt - i" arbitrary: i st rule: less_induct)
  case less
  show ?case
  proof (cases "i < tt")
    case False
    then show ?thesis by (simp add: batch_loop_done)
  next
    case True
    have "tt - (i + batchSize) < tt - i"
      using True by (simp add: batchSize_def)
    then have "nfts (batch_loop addr env cb tt i st) =
        nfts st @ concat (map (token_result addr env) [i..<min (i + batchSize) tt]) @
          concat (map (token_result addr env) [i + batchSize..<tt])"
      by (simp add: batch_loop_step [OF True] less del: upt_Suc)
    also have "\<dots> = nfts st @ concat (map (token_result addr env)
        ([i..<min (i + batchSize) tt] @ [i + batchSize..<tt]))"
      by simp
    also have "\<dots> = nfts st @ concat (map (token_result addr env) [i..<tt])"
      by (simp only: upt_batch [OF True, symmetric])
    finally show ?thesis .
  qed
qed

lemma batch_loop_launched:
  "launched (events (batch_loop addr env cb tt i st)) = launched (events st) @ [i..<tt]"
proof (induction "tt - i" arbitrary: i st rule: less_induct)
  case less
  show ?case
  proof (cases "i < tt")
    case False
    then show ?thesis by (simp add: batch_loop_done)
  next
    case True
    have "tt - (i + batchSize) < tt - i"
      using True by (simp add: batchSize_def)
    then have "launched (events (batch_loop addr env cb tt i st)) =
        launched (events st) @ [i..<min (i + batchSize) tt] @ [i + batchSize..<tt]"
      by (simp add: batch_loop_step [OF True] less launched_append launched_map_Launch
          launched_map_Progress del: upt_Suc)
    also have "\<dots> = launched (events st) @ [i..<tt]"
      using upt_batch [OF True] by simp
    finally show ?thesis .
  qed
qed

lemma batch_loop_progress_calls:
  "progress_calls (events (batch_loop addr env cb tt i st)) =
     progress_calls (events st) @
       (if cb then map (\<lambda>k. (k, tt))
           [Suc (processedCount st)..<Suc (processedCount st + (tt - i))]
        else [])"
proof (induction "tt - i" arbitrary: i st rule: less_induct)
  case less
  show ?case
  proof (cases "i < tt")
    case False
    then show ?thesis by (simp add: batch_loop_done)
  next
    case True
    define b where "b = min (i + batchSize) tt - i"
    have d: "tt - (i + batchSize) < tt - i"
      using True by (simp add: batchSize_def)
    have s: "b + (tt - (i + batchSize)) = tt - i"
      using True by (simp add: b_def min_def)
    have u: "[Suc p..<Suc (p + b)] @ [Suc (p + b)..<Suc (p + b + (tt - (i + batchSize)))]
        = [Suc p..<Suc (p + (tt - i))]" for p
      using upt_add_eq_append [of "Suc p" "Suc (p + b)" "tt - (i + batchSize)"] s
      by (simp add: add.assoc)
    show ?thesis
      using u [of "processedCount st"]
      by (simp add: batch_loop_step [OF True] less [OF d] progress_calls_append
          progress_calls_map_Launch progress_calls_map_Progress b_def [symmetric]
          map_append [symmetric] del: upt_Suc map_append)
  qed
qed

text \<open>
  C1, as the code has it. The callback is called inside \<open>forEach\<close>, once per settled
  result. For a supply of 7 and whatever the chain answers, the trace is: the five
  fetches of the first batch, its settling, five calls with counts 1 to 5 of 7, then the
  two fetches of the second batch, its settling, and two calls with counts 6 and 7. The
  calls of a batch come after the batch has settled and before the next batch starts.
\<close>

theorem progress_per_token:
  "snd (getNFTsFromContract addr (Inr 7) env True) =
     [Launch 0, Launch 1, Launch 2, Launch 3, Launch 4, AllSettled,
      Progress 1 7, Progress 2 7, Progress 3 7, Progress 4 7, Progress 5 7,
      Launch 5, Launch 6, AllSettled, Progress 6 7, Progress 7 7]"
  by (simp add: getNFTsFromContract_def maxNFTs_def batch_loop_step batch_loop_done
      batchSize_def upt_rec)

text \<open>
  C1 as stated fails: with a supply of 7 the callback is called seven times, not twice
  with (5, 7) and (7, 7).
\<close>

theorem progress_per_batch_counterexample:
  "progress_calls (snd (getNFTsFromContract (js ''0x01'') (Inr 7) rejecting_chain True))
     = [(1, 7), (2, 7), (3, 7), (4, 7), (5, 7), (6, 7), (7, 7)] \<and>
   progress_calls (snd (getNFTsFromContract (js ''0x01'') (Inr 7) rejecting_chain True))
     \<noteq> [(5, 7), (7, 7)]"
  by (simp add: getNFTsFromContract_def maxNFTs_def Let_def batch_loop_progress_calls upt_rec)

lemma token_result_cases:
  "token_result addr env j = [] \<or>
   (\<exists>nft. token_result addr env j = [nft] \<and> tokenId nft = toString j)"
proof (cases "fst (fetchNFTDataWithRetry addr j (env j) 3)")
  case (Inl e)
  then show ?thesis by (simp add: token_result_def pushed_def)
next
  case (Inr r)
  show ?thesis
  proof (cases r)
    case None
    with Inr show ?thesis by (simp add: token_result_def pushed_def)
  next
    case (Some nft)
    then have "tokenId nft = toString j"
      using Inr retry_loop_tokenId [of addr j "env j" 3 1 nft]
      by (simp add: fetchNFTDataWithRetry_def)
    with Inr Some show ?thesis by (simp add: token_result_def pushed_def)
  qed
qed

lemma length_token_results:
  "length (concat (map (token_result addr env) ks)) \<le> length ks"
proof (induction ks)
  case Nil
  then show ?case by simp
next
  case (Cons k ks)
  then show ?case
    using token_result_cases [of addr env k] by auto
qed

lemma tokenId_token_results:
  "map tokenId (concat (map (token_result addr env) ks)) =
     map toString (filter (\<lambda>j. token_result addr env j \<noteq> []) ks)"
proof (induction ks)
  case Nil
  then show ?case by simp
next
  case (Cons k ks)
  then show ?case
    using token_result_cases [of addr env k] by auto
qed

lemma getNFTsFromContract_result:
  "fst (getNFTsFromContract addr (Inr ts) env cb) =
     Inr (concat (map (token_result addr env) [0..<min (unat ts) maxNFTs]))"
  by (simp add: getNFTsFromContract_def Let_def batch_loop_nfts)

lemma getNFTsFromContract_launched:
  "launched (snd (getNFTsFromContract addr (Inr ts) env cb)) = [0..<min (unat ts) maxNFTs]"
  by (simp add: getNFTsFromContract_def Let_def batch_loop_launched)

text \<open>
  C7. For every supply the fetches launched are those of the indices from 0 up to, and
  without, the minimum of the supply and 30, in this order, and the result is no longer
  than that. A supply of 0 gives the empty result and an empty trace, so no call of the
  callback; a supply of 45 launches the indices 0 to 29 and returns at most 30 records.
\<close>

theorem scan_range:
  "(\<exists>ns evs. getNFTsFromContract addr (Inr ts) env cb = (Inr ns, evs) \<and>
      launched evs = [0..<min (unat ts) 30] \<and> length ns \<le> min (unat ts) 30) \<and>
   getNFTsFromContract addr (Inr 0) env cb = (Inr [], []) \<and>
   (\<exists>ns evs. getNFTsFromContract addr (Inr 45) env cb = (Inr ns, evs) \<and>
      launched evs = [0..<30] \<and> length ns \<le> 30)"
proof -
  have g: "\<exists>ns evs. getNFTsFromContract addr (Inr w) env cb = (Inr ns, evs) \<and>
      launched evs = [0..<min (unat w) 30] \<and> length ns \<le> min (unat w) 30" for w
  proof -
    have "length (concat (map (token_result addr env) [0..<min (unat w) maxNFTs]))
        \<le> min (unat w) 30"
      using length_token_results [of addr env "[0..<min (unat w) maxNFTs]"]
      by (simp add: maxNFTs_def)
    moreover have "fst (getNFTsFromContract addr (Inr w) env cb) =
        Inr (concat (map (token_result addr env) [0..<min (unat w) maxNFTs]))"
      by (rule getNFTsFromContract_result)
    moreover have "launched (snd (getNFTsFromContract addr (Inr w) env cb)) =
        [0..<min (unat w) 30]"
      by (simp add: getNFTsFromContract_launched maxNFTs_def)
    ultimately show ?thesis
      by (cases "getNFTsFromContract addr (Inr w) env cb") simp
  qed
  have z: "getNFTsFromContract addr (Inr 0) env cb = (Inr [], [])"
    by (simp add: getNFTsFromContract_def)
  show ?thesis
    using g [of ts] g [of 45] z by simp
qed

text \<open>
  C8. When the supply has been read, the records returned are those of the scanned
  indices whose fetch gave a record, in the order of the indices; the identifier of each
  is the decimal text of its index, so no identifier occurs twice and none comes from
  outside the scanned range.
\<close>

theorem result_unique_ordered:
  "\<exists>ns ks. fst (getNFTsFromContract addr (Inr ts) env cb) = Inr ns \<and>
     ks = filter (\<lambda>j. token_result addr env j \<noteq> []) [0..<min (unat ts) 30] \<and>
     map tokenId ns = map toString ks \<and>
     distinct (map tokenId ns) \<and>
     sorted_wrt (<) ks \<and>
     set ks \<subseteq> {0..<min (unat ts) 30}"
proof -
  define ks where "ks = filter (\<lambda>j. token_result addr env j \<noteq> []) [0..<min (unat ts) 30]"
  define ns where "ns = concat (map (token_result addr env) [0..<min (unat ts) 30])"
  have r: "fst (getNFTsFromContract addr (Inr ts) env cb) = Inr ns"
    by (simp add: getNFTsFromContract_result ns_def maxNFTs_def)
  have m: "map tokenId ns = map toString ks"
    by (simp add: ns_def ks_def tokenId_token_results)
  have s: "sorted_wrt (<) ks"
    by (simp add: ks_def sorted_wrt_filter)
  have "distinct ks" by (simp add: ks_def)
  then have d: "distinct (map tokenId ns)"
    using inj_toString by (simp add: m distinct_map inj_on_def inj_def)
  have b: "set ks \<subseteq> {0..<min (unat ts) 30}"
    by (auto simp: ks_def)
  show ?thesis
    using r m s d b ks_def by blast
qed

section \<open>Encoding, then decoding\<close>

text \<open>A number below \<open>2 ^ 18\<close> or \<open>2 ^ 24\<close> is the sum of its digits in base 64.\<close>

lemma split3: "v div 4096 * 4096 + (v div 64) mod 64 * 64 + v mod 64 = (v::nat)"
proof -
  define w where "w = v div 64"
  define q where "q = w div 64"
  define r where "r = w mod 64"
  have a: "v div 4096 = q"
    by (simp add: q_def w_def div_mult2_eq [symmetric])
  have e: "w = q * 64 + r"
    by (simp add: q_def r_def)
  have f: "v = w * 64 + v mod 64"
    by (simp add: w_def)
  have "q * 4096 + r * 64 + v mod 64 = w * 64 + v mod 64"
    using e by simp
  then show ?thesis
    using f by (simp add: a r_def [symmetric] w_def [symmetric])
qed

lemma split4:
  "v div 262144 * 262144 + (v div 4096) mod 64 * 4096 + (v div 64) mod 64 * 64 + v mod 64
     = (v::nat)"
proof -
  define w where "w = v div 4096"
  define q where "q = w div 64"
  define r where "r = w mod 64"
  have a: "v div 262144 = q"
    by (simp add: q_def w_def div_mult2_eq [symmetric])
  have e: "w = q * 64 + r"
    by (simp add: q_def r_def)
  have "q * 262144 + r * 4096 = w * 4096"
    using e by simp
  then have "v div 262144 * 262144 + (v div 4096) mod 64 * 4096 = v div 4096 * 4096"
    by (simp add: a r_def w_def)
  then show ?thesis
    using split3 [of v] by simp
qed

lemma hexval_hexdigit: "d < 16 \<Longrightarrow> hexval (hexdigit d) = Some d"
  by (simp add: hexval_def hexdigit_def Let_def unat_of_nat_16 del: of_nat_add of_nat_numeral)

lemma parseHexOctet_hexdigit:
  "b < 256 \<Longrightarrow> parseHexOctet (hexdigit (b div 16)) (hexdigit (b mod 16)) = Some b"
proof -
  assume "b < 256"
  then have "b div 16 < 16" by simp
  then show ?thesis
    by (simp add: parseHexOctet_def hexval_hexdigit)
qed

lemma isHex_hexdigit: "d < 16 \<Longrightarrow> isHex (hexdigit d)"
  by (simp add: isHex_def hexval_hexdigit)

lemma take_octets_pct:
  "(\<And>b. b \<in> set bs \<Longrightarrow> b < 256) \<Longrightarrow>
   take_octets (length bs) (concat (map pct_octet bs) @ r) = Some (bs, r)"
proof (induction bs)
  case Nil
  then show ?case by simp
next
  case (Cons b bs)
  then show ?case
    by (simp add: pct_octet_def parseHexOctet_hexdigit)
qed

lemma utf8_decode_encode2:
  "128 \<le> v \<Longrightarrow> v < 2048 \<Longrightarrow> utf8_decode [192 + v div 64, 128 + v mod 64] = Some v"
  by (simp add: isCont_def)

lemma utf8_decode_encode3:
  assumes "2048 \<le> v" and "v < 65536" and "\<not> (55296 \<le> v \<and> v < 57344)"
  shows "utf8_decode [224 + v div 4096, 128 + (v div 64) mod 64, 128 + v mod 64] = Some v"
  using assms by (simp add: isCont_def split3)

lemma utf8_decode_encode4:
  assumes "65536 \<le> v" and "v < 1114112"
  shows "utf8_decode [240 + v div 262144, 128 + (v div 4096) mod 64, 128 + (v div 64) mod 64,
                128 + v mod 64] = Some v"
  using assms by (simp add: isCont_def split4)

lemma decode_pct_encode:
  assumes "v < 1114112" and "\<not> (55296 \<le> v \<and> v < 57344)"
  shows "decodeURIComponent_opt (pct_encode v @ r) =
     map_option (\<lambda>t. utf16_encode v @ t) (decodeURIComponent_opt r)"
proof -
  consider "v < 128" | "128 \<le> v" "v < 2048" | "2048 \<le> v" "v < 65536" | "65536 \<le> v"
    by linarith
  then show ?thesis
  proof cases
    case 1
    then show ?thesis
      by (simp add: pct_encode_def utf8_encode_def pct_octet_def parseHexOctet_hexdigit
          leading_ones_def utf16_encode_def)
  next
    case 2
    have b: "192 + v div 64 < 224" "128 + v mod 64 < 256"
      using 2 by simp_all
    show ?thesis
      using 2 b
      by (simp add: pct_encode_def utf8_encode_def pct_octet_def parseHexOctet_hexdigit
          leading_ones_def utf8_decode_encode2 del: utf8_decode.simps)
  next
    case 3
    have b: "224 + v div 4096 < 240" "128 + (v div 64) mod 64 < 256" "128 + v mod 64 < 256"
      using 3 by simp_all
    show ?thesis
      using 3 b assms(2)
      by (simp add: pct_encode_def utf8_encode_def pct_octet_def parseHexOctet_hexdigit
          leading_ones_def utf8_decode_encode3 numeral_2_eq_2 del: utf8_decode.simps)
  next
    case 4
    have b: "240 + v div 262144 < 248" "128 + (v div 4096) mod 64 < 256"
      "128 + (v div 64) mod 64 < 256" "128 + v mod 64 < 256"
      using 4 assms(1) by simp_all
    show ?thesis
      using 4 b assms(1)
      by (simp add: pct_encode_def utf8_encode_def pct_octet_def parseHexOctet_hexdigit
          leading_ones_def utf8_decode_encode4 numeral_3_eq_3 del: utf8_decode.simps)
  qed
qed

lemma unat_16_bound: "unat (c :: 16 word) < 65536"
  using unsigned_less [of c, where ?'a = nat] by simp

lemma isUnescaped_not_percent: "isUnescaped c \<Longrightarrow> c \<noteq> cu CHR ''%''"
  by (auto simp: isUnescaped_def cu_def)

lemma utf16_encode_unit: "utf16_encode (unat c) = [c]"
  using unat_16_bound [of c] by (simp add: utf16_encode_def)

lemma utf16_encode_pair:
  assumes "55296 \<le> unat c" and "unat c < 56320" and "56320 \<le> unat d" and "unat d < 57344"
  shows "utf16_encode (65536 + (unat c - 55296) * 1024 + (unat d - 56320)) = [c, d]"
proof -
  define a where "a = unat c - 55296"
  define b where "b = unat d - 56320"
  have b: "b < 1024" using assms by (simp add: b_def)
  have "(a * 1024 + b) div 1024 = a" "(a * 1024 + b) mod 1024 = b"
    using b by simp_all
  moreover have "55296 + a = unat c" "56320 + b = unat d"
    using assms by (simp_all add: a_def b_def)
  ultimately show ?thesis
    by (simp add: utf16_encode_def a_def [symmetric] b_def [symmetric])
qed

lemma decode_encode:
  "encodeURIComponent_opt s = Some e \<Longrightarrow> decodeURIComponent_opt e = Some s"
proof (induction s arbitrary: e rule: encodeURIComponent_opt.induct)
  case 1
  then show ?case by simp
next
  case (2 c s)
  show ?case
  proof (cases "isUnescaped c")
    case True
    then obtain e' where e': "encodeURIComponent_opt s = Some e'" "e = c # e'"
      using "2.prems" by auto
    have "decodeURIComponent_opt e' = Some s"
      using "2.IH"(1) [OF True e'(1)] .
    then show ?thesis
      using True e'(2) by (simp add: isUnescaped_not_percent)
  next
    case False
    show ?thesis
    proof (cases "unat c < 55296 \<or> 57344 \<le> unat c")
      case True
      then obtain e' where e': "encodeURIComponent_opt s = Some e'"
          "e = pct_encode (unat c) @ e'"
        using "2.prems" False by (auto simp: Let_def)
      have "decodeURIComponent_opt e' = Some s"
        using "2.IH"(2) [OF False refl True e'(1)] .
      moreover have "unat c < 1114112" "\<not> (55296 \<le> unat c \<and> unat c < 57344)"
        using True unat_16_bound [of c] by auto
      ultimately show ?thesis
        by (simp add: e'(2) decode_pct_encode utf16_encode_unit)
    next
      case surr: False
      then have lead: "\<not> 56320 \<le> unat c"
        using "2.prems" False by (auto simp: Let_def)
      then obtain d s' where s: "s = d # s'"
        using "2.prems" False surr by (cases s) (auto simp: Let_def)
      have trail: "56320 \<le> unat d \<and> unat d < 57344"
        using "2.prems" False surr lead s by (auto simp: Let_def split: if_splits)
      define v where "v = 65536 + (unat c - 55296) * 1024 + (unat d - 56320)"
      obtain e' where e': "encodeURIComponent_opt s' = Some e'" "e = pct_encode v @ e'"
        using "2.prems" False surr lead s trail by (auto simp: Let_def v_def)
      have "decodeURIComponent_opt e' = Some s'"
        using "2.IH"(3) [OF False refl surr lead s refl trail e'(1)] .
      moreover have "v < 1114112" "\<not> (55296 \<le> v \<and> v < 57344)"
        using surr lead trail by (auto simp: v_def)
      moreover have "utf16_encode v = [c, d]"
        unfolding v_def using surr lead trail by (intro utf16_encode_pair) auto
      ultimately show ?thesis
        by (simp add: e'(2) decode_pct_encode s)
    qed
  qed
qed

lemma isUnescaped_not_surrogate: "isUnescaped c \<Longrightarrow> unat c < 55296"
  by (auto simp: isUnescaped_def Let_def)

lemma encode_well_formed:
  "isWellFormed s \<Longrightarrow> \<exists>e. encodeURIComponent_opt s = Some e"
proof (induction s rule: encodeURIComponent_opt.induct)
  case 1
  then show ?case by simp
next
  case (2 c s)
  show ?case
  proof (cases "isUnescaped c")
    case True
    then have "isWellFormed s"
      using "2.prems" isUnescaped_not_surrogate [OF True] by (simp add: Let_def)
    then show ?thesis
      using "2.IH"(1) [OF True] True by auto
  next
    case False
    show ?thesis
    proof (cases "unat c < 55296 \<or> 57344 \<le> unat c")
      case True
      then have "isWellFormed s"
        using "2.prems" by (auto simp: Let_def)
      then show ?thesis
        using "2.IH"(2) [OF False refl True] False True by (auto simp: Let_def)
    next
      case surr: False
      then have lead: "\<not> 56320 \<le> unat c"
        using "2.prems" by (auto simp: Let_def split: if_splits)
      obtain d s' where s: "s = d # s'"
        using "2.prems" surr lead by (cases s) (auto simp: Let_def)
      have trail: "56320 \<le> unat d \<and> unat d < 57344" and wf: "isWellFormed s'"
        using "2.prems" surr lead s by (auto simp: Let_def)
      show ?thesis
        using "2.IH"(3) [OF False refl surr lead s refl trail wf] False surr lead s trail
        by (auto simp: Let_def)
    qed
  qed
qed

lemma utf8_encode_bound: "v < 1114112 \<Longrightarrow> b \<in> set (utf8_encode v) \<Longrightarrow> b < 256"
  by (auto simp: utf8_encode_def split: if_splits)

lemma utf8_encode_Cons: "v < 1114112 \<Longrightarrow> \<exists>b bs. utf8_encode v = b # bs \<and> b < 256"
  by (auto simp: utf8_encode_def)

lemma hexdigit_not_comma: "d < 16 \<Longrightarrow> hexdigit d \<noteq> cu CHR '',''"
proof
  assume "d < 16" and "hexdigit d = cu CHR '',''"
  then have "hexval (cu CHR '','') = Some d"
    using hexval_hexdigit [of d] by simp
  then show False
    by (simp add: hexval_def cu_def)
qed

lemma comma_pct_octet: "b < 256 \<Longrightarrow> cu CHR '','' \<notin> set (pct_octet b)"
proof -
  assume "b < 256"
  then have "b div 16 < 16" "b mod 16 < 16" by simp_all
  then have "hexdigit (b div 16) \<noteq> cu CHR '',''" "hexdigit (b mod 16) \<noteq> cu CHR '',''"
    by (simp_all add: hexdigit_not_comma)
  moreover have "cu CHR ''%'' \<noteq> cu CHR '',''"
    by (simp add: cu_def)
  ultimately show ?thesis
    by (auto simp: pct_octet_def)
qed

lemma comma_pct_encode: "v < 1114112 \<Longrightarrow> cu CHR '','' \<notin> set (pct_encode v)"
  by (auto simp: pct_encode_def dest: utf8_encode_bound comma_pct_octet)

lemma has_pct_escape_pct_encode: "v < 1114112 \<Longrightarrow> has_pct_escape (pct_encode v @ r)"
proof -
  assume "v < 1114112"
  then obtain b bs where b: "utf8_encode v = b # bs" "b < 256"
    using utf8_encode_Cons by blast
  then have "b div 16 < 16" "b mod 16 < 16" by simp_all
  then show ?thesis
    by (simp add: pct_encode_def b(1) pct_octet_def isHex_hexdigit)
qed

lemma isUnescaped_not_comma: "isUnescaped c \<Longrightarrow> c \<noteq> cu CHR '',''"
  by (auto simp: isUnescaped_def cu_def)

text \<open>The code point that a step of the encoder escapes is below U+110000.\<close>

lemma surrogate_pair_bound:
  "unat c < 56320 \<Longrightarrow> unat d < 57344 \<Longrightarrow>
   65536 + (unat c - 55296) * 1024 + (unat d - 56320) < 1114112"
  by simp

lemma encode_facts:
  "encodeURIComponent_opt s = Some e \<Longrightarrow>
   cu CHR '','' \<notin> set e \<and> (\<not> has_pct_escape e \<longrightarrow> e = s)"
proof (induction s arbitrary: e rule: encodeURIComponent_opt.induct)
  case 1
  then show ?case by simp
next
  case (2 c s)
  show ?case
  proof (cases "isUnescaped c")
    case True
    then obtain e' where e': "encodeURIComponent_opt s = Some e'" "e = c # e'"
      using "2.prems" by auto
    have "cu CHR '','' \<notin> set e' \<and> (\<not> has_pct_escape e' \<longrightarrow> e' = s)"
      using "2.IH"(1) [OF True e'(1)] .
    moreover have "c \<noteq> cu CHR '',''" "c \<noteq> cu CHR ''%''"
      using True by (simp_all add: isUnescaped_not_comma isUnescaped_not_percent)
    ultimately show ?thesis
      by (simp add: e'(2))
  next
    case False
    show ?thesis
    proof (cases "unat c < 55296 \<or> 57344 \<le> unat c")
      case True
      then obtain e' where e': "encodeURIComponent_opt s = Some e'"
          "e = pct_encode (unat c) @ e'"
        using "2.prems" False by (auto simp: Let_def)
      have "cu CHR '','' \<notin> set e' \<and> (\<not> has_pct_escape e' \<longrightarrow> e' = s)"
        using "2.IH"(2) [OF False refl True e'(1)] .
      moreover have "unat c < 1114112"
        using unat_16_bound [of c] by simp
      ultimately show ?thesis
        by (simp add: e'(2) comma_pct_encode has_pct_escape_pct_encode)
    next
      case surr: False
      then have lead: "\<not> 56320 \<le> unat c"
        using "2.prems" False by (auto simp: Let_def)
      then obtain d s' where s: "s = d # s'"
        using "2.prems" False surr by (cases s) (auto simp: Let_def)
      have trail: "56320 \<le> unat d \<and> unat d < 57344"
        using "2.prems" False surr lead s by (auto simp: Let_def split: if_splits)
      define v where "v = 65536 + (unat c - 55296) * 1024 + (unat d - 56320)"
      obtain e' where e': "encodeURIComponent_opt s' = Some e'" "e = pct_encode v @ e'"
        using "2.prems" False surr lead s trail by (auto simp: Let_def v_def)
      have "cu CHR '','' \<notin> set e' \<and> (\<not> has_pct_escape e' \<longrightarrow> e' = s')"
        using "2.IH"(3) [OF False refl surr lead s refl trail e'(1)] .
      moreover have "v < 1114112"
        unfolding v_def using lead trail by (intro surrogate_pair_bound) auto
      ultimately show ?thesis
        by (simp add: e'(2) comma_pct_encode has_pct_escape_pct_encode)
    qed
  qed
qed

lemma startsWith_set: "startsWith s p \<Longrightarrow> set p \<subseteq> set s"
  by (induction s p rule: startsWith.induct) auto

lemma str_includes_set: "str_includes s p \<Longrightarrow> set p \<subseteq> set s"
proof (induction s)
  case Nil
  then show ?case by simp
next
  case (Cons x xs)
  then show ?case
    using startsWith_set [of "x # xs" p] by auto
qed

lemma startsWith_append: "startsWith s p \<Longrightarrow> startsWith (s @ t) p"
  by (induction s p rule: startsWith.induct) auto

lemma str_includes_Nil: "str_includes s []"
  by (cases s) simp_all

lemma str_includes_append: "str_includes s p \<Longrightarrow> str_includes (s @ t) p"
proof (induction s)
  case Nil
  then show ?case by (simp add: str_includes_Nil)
next
  case (Cons x xs)
  then show ?case
    using startsWith_append [of "x # xs" p t] by auto
qed

lemma startsWith_cut:
  "c \<notin> set ys \<Longrightarrow> startsWith (zs @ c # ys) (q @ [c]) \<Longrightarrow> startsWith (zs @ [c]) (q @ [c])"
proof (induction zs arbitrary: q)
  case Nil
  show ?case
  proof (cases q)
    case Nil
    then show ?thesis by simp
  next
    case (Cons a q')
    then have "startsWith ys (q' @ [c])"
      using Nil.prems(2) by auto
    then have "c \<in> set ys"
      using startsWith_set by fastforce
    then show ?thesis
      using Nil.prems(1) by simp
  qed
next
  case (Cons z zs)
  show ?case
  proof (cases q)
    case Nil
    then show ?thesis using Cons.prems(2) by simp
  next
    case q: (Cons a q')
    then show ?thesis
      using Cons.prems Cons.IH [of q'] by simp
  qed
qed

lemma str_includes_cut:
  "c \<notin> set ys \<Longrightarrow> str_includes (zs @ c # ys) (q @ [c]) \<Longrightarrow>
   str_includes (zs @ [c]) (q @ [c])"
proof (induction zs)
  case Nil
  have "\<not> str_includes ys (q @ [c])"
    using Nil.prems(1) str_includes_set [of ys "q @ [c]"] by auto
  then have "startsWith ([] @ c # ys) (q @ [c])"
    using Nil.prems(2) by simp
  then have "startsWith ([] @ [c]) (q @ [c])"
    using Nil.prems(1) by (rule startsWith_cut [rotated])
  then show ?case by simp
next
  case (Cons z zs)
  from Cons.prems(2)
  consider "startsWith ((z # zs) @ c # ys) (q @ [c])" | "str_includes (zs @ c # ys) (q @ [c])"
    by auto
  then show ?case
  proof cases
    case 1
    then have "startsWith ((z # zs) @ [c]) (q @ [c])"
      using Cons.prems(1) by (rule startsWith_cut [rotated])
    then show ?thesis by simp
  next
    case 2
    then show ?thesis
      using Cons.IH [OF Cons.prems(1)] by simp
  qed
qed

lemma after_first_append:
  "c \<notin> set m \<Longrightarrow> after_first c (m @ c # e) = e"
proof -
  assume "c \<notin> set m"
  then have "dropWhile (\<lambda>x. x \<noteq> c) (m @ c # e) = dropWhile (\<lambda>x. x \<noteq> c) (c # e)"
    by (intro dropWhile_append2) auto
  then show ?thesis
    by (simp add: after_first_def)
qed

lemma takeWhile_no_sep: "c \<notin> set (takeWhile (\<lambda>x. x \<noteq> c) u)"
  using set_takeWhileD by fastforce

lemma js_base64: "js '';base64,'' = js '';base64'' @ [cu CHR '','']"
  by (simp add: js_def)

text \<open>
  C4, as the code has it. For a data-URI without the marker \<open>;base64,\<close> whose payload,
  the text past the first comma, holds no escape \<open>%XX\<close> and no unpaired surrogate, the
  ensure-encoded transform returns a data-URI that the decoder turns back into exactly
  that payload.
\<close>

theorem ensure_then_decode:
  assumes "\<not> str_includes u (js '';base64,'')"
    and "cu CHR '','' \<in> set u"
    and "\<not> has_pct_escape (after_first (cu CHR '','') u)"
    and "isWellFormed (after_first (cu CHR '','') u)"
  shows "\<exists>e. ensureEncodedDataURI u = Inr e \<and>
              decodeDataURI e = Inr (after_first (cu CHR '','') u)"
proof -
  define c where "c = cu CHR '',''"
  define m where "m = takeWhile (\<lambda>x. x \<noteq> c) u"
  define p where "p = after_first c u"
  have u: "u = m @ c # p"
    using assms(2) by (simp add: m_def p_def c_def takeWhile_after_first)
  have cm: "c \<notin> set m"
    by (simp add: m_def takeWhile_no_sep)
  obtain e where e: "encodeURIComponent_opt p = Some e"
    using assms(4) encode_well_formed by (auto simp: p_def c_def)
  have ce: "c \<notin> set e" and plain: "\<not> has_pct_escape e \<Longrightarrow> e = p"
    using encode_facts [OF e] by (simp_all add: c_def)
  have split: "str_split c u = m # str_split c p"
    using assms(2) by (simp add: str_split_sep m_def p_def c_def)
  have ens: "ensureEncodedDataURI u = Inr (m @ c # e)"
    using assms(1,2,3) e
    by (simp add: ensureEncodedDataURI_def Let_def length_str_split js_comma str_join_split
        str_split_not_Nil encodeURIComponent_def split c_def [symmetric] p_def [symmetric])
  have no64: "\<not> str_includes (m @ c # e) (js '';base64,'')"
  proof
    assume "str_includes (m @ c # e) (js '';base64,'')"
    then have "str_includes (m @ [c]) (js '';base64'' @ [c])"
      using ce by (simp add: js_base64 c_def [symmetric] str_includes_cut)
    then have "str_includes ((m @ [c]) @ p) (js '';base64'' @ [c])"
      by (rule str_includes_append)
    then show False
      using assms(1) u by (simp add: js_base64 c_def)
  qed
  have af: "after_first c (m @ c # e) = e"
    using cm by (rule after_first_append)
  have "decodeDataURI (m @ c # e) = Inr p"
  proof (cases "has_pct_escape e")
    case True
    have "decodeURIComponent e = Inr p"
      using decode_encode [OF e] by (simp add: decodeURIComponent_def)
    then show ?thesis
      using True af by (simp add: decodeDataURI_plain [OF no64] c_def [symmetric])
  next
    case False
    then have "decodeDataURI (m @ c # e) = Inr e"
      using af by (simp add: decodeDataURI_plain [OF no64] c_def [symmetric])
    then show ?thesis
      using plain [OF False] by simp
  qed
  then show ?thesis
    using ens by (simp add: p_def c_def)
qed

theorem ensure_then_decode_witness:
  "\<not> str_includes (js ''data:image/svg+xml,<svg a=\"1\"/>'') (js '';base64,'') \<and>
   \<not> has_pct_escape (js ''<svg a=\"1\"/>'') \<and>
   isWellFormed (js ''<svg a=\"1\"/>'') \<and>
   (\<exists>e. ensureEncodedDataURI (js ''data:image/svg+xml,<svg a=\"1\"/>'') = Inr e \<and>
        decodeDataURI e = Inr (js ''<svg a=\"1\"/>''))"
proof -
  have h1: "\<not> str_includes (js ''data:image/svg+xml,<svg a=\"1\"/>'') (js '';base64,'')"
    by code_simp
  have h2: "cu CHR '','' \<in> set (js ''data:image/svg+xml,<svg a=\"1\"/>'')"
    by code_simp
  have a: "after_first (cu CHR '','') (js ''data:image/svg+xml,<svg a=\"1\"/>'')
      = js ''<svg a=\"1\"/>''"
    by code_simp
  have h3: "\<not> has_pct_escape (js ''<svg a=\"1\"/>'')"
    by code_simp
  have h4: "isWellFormed (js ''<svg a=\"1\"/>'')"
    by (simp add: js_def cu_def)
  show ?thesis
    using h1 h3 h4 ensure_then_decode [of "js ''data:image/svg+xml,<svg a=\"1\"/>''"]
    by (simp only: a h2 simp_thms)
qed

text \<open>
  C4 as stated fails for three kinds of payload. A payload that already holds an escape
  is passed through by the transform and then decoded, so \<open>%41\<close> comes back as \<open>A\<close>. A
  payload with an unpaired surrogate makes the transform raise. A payload that holds
  \<open>;base64,\<close> is passed through and then handed to \<open>atob\<close>, which raises.
\<close>

theorem ensure_then_decode_counterexample:
  "ensureEncodedDataURI (js ''data:image/svg+xml,<text>%41</text>'')
     = Inr (js ''data:image/svg+xml,<text>%41</text>'') \<and>
   decodeDataURI (js ''data:image/svg+xml,<text>%41</text>'') = Inr (js ''<text>A</text>'') \<and>
   js ''<text>A</text>'' \<noteq> js ''<text>%41</text>'' \<and>
   ensureEncodedDataURI (js ''data:image/svg+xml,<text>'' @ [0xD800] @ js ''</text>'')
     = Inl URIError \<and>
   ensureEncodedDataURI (js ''data:image/svg+xml,<a>;base64,</a>'')
     = Inr (js ''data:image/svg+xml,<a>;base64,</a>'') \<and>
   decodeDataURI (js ''data:image/svg+xml,<a>;base64,</a>'') = Inl InvalidCharacterError"
proof -
  have "ensureEncodedDataURI (js ''data:image/svg+xml,<text>%41</text>'')
     = Inr (js ''data:image/svg+xml,<text>%41</text>'')"
    by code_simp
  moreover have "decodeDataURI (js ''data:image/svg+xml,<text>%41</text>'')
      = Inr (js ''<text>A</text>'')"
    by code_simp
  moreover have "js ''<text>A</text>'' \<noteq> js ''<text>%41</text>''"
    by code_simp
  moreover have
    "ensureEncodedDataURI (js ''data:image/svg+xml,<text>'' @ [0xD800] @ js ''</text>'')
     = Inl URIError"
    by (simp add: ensureEncodedDataURI_def js_def cu_def str_split.simps isHex_def hexval_def
        encodeURIComponent_def isUnescaped_def pct_encode_def utf8_encode_def pct_octet_def
        hexdigit_def Let_def)
  moreover have "ensureEncodedDataURI (js ''data:image/svg+xml,<a>;base64,</a>'')
     = Inr (js ''data:image/svg+xml,<a>;base64,</a>'')"
    by code_simp
  moreover have "decodeDataURI (js ''data:image/svg+xml,<a>;base64,</a>'')
      = Inl InvalidCharacterError"
    by code_simp
  ultimately show ?thesis by blast
qed

end
